theory Spec2Isabelle
  imports
    Complex_Main
    "HOL-Library.Multiset"
    "HOL-Library.AList"
    "HOL-Library.Char_ord"
    "HOL-Library.List_Lexorder"
begin

section \<open>The stratified question sampler of \<open>markdownParser.ts\<close>\<close>

text \<open>
  This theory embeds \<open>shuffleArray\<close> and \<open>selectRandomQuestions\<close> (the TypeScript
  file \<open>src/lib/markdownParser.ts\<close>) and proves the properties the specification
  states about them.

  Conventions of the embedding:
  \<^item> a JavaScript array is a HOL list; \<open>push\<close> appends, \<open>filter\<close> is \<open>filter\<close>,
    \<open>slice(0, e)\<close> is \<open>slice0\<close>;
  \<^item> the \<open>Map\<close> \<open>byWeek\<close> is an association list in insertion order, which is the
    order \<open>byWeek.keys()\<close> enumerates;
  \<^item> \<open>count\<close> (written \<open>cnt\<close> as a variable: \<open>count\<close> is a constant of the
    multiset library), week numbers and the per-week counts are integers (\<open>int\<close>); the
    products \<open>weekCount * ratio\<close> are computed over the rationals. The source
    computes them in IEEE doubles; for the three ratios \<open>0.1\<close>, \<open>0.4\<close>, \<open>0.5\<close> and
    integers far below \<open>2^49\<close> the double product lies on the same side of every
    rounding boundary as the exact product (the doubles nearest \<open>0.1\<close> and \<open>0.4\<close>
    lie above them, halves are representable, and rounding to nearest is monotone),
    so \<open>Math.round\<close> returns the same integer;
  \<^item> \<open>Math.random()\<close> is a parameter: \<open>rnd k\<close> is the value the \<open>k\<close>-th call of
    \<open>Math.random()\<close> returns during one run (counting from 0), and every function that
    shuffles takes the number of calls made so far and returns it updated. The index
    \<open>Math.floor(Math.random() * (i + 1))\<close> is the floor of the exact product; the
    double product of a draw in \<open>[0, 1)\<close> and \<open>i + 1\<close> also lies in \<open>[0, i + 1)\<close>, so
    where rounding makes the source's index differ, its run is the model's run on a
    draw that gives that index, and the theorems hold for all draws in \<open>[0, 1)\<close>;
  \<^item> \<open>byWeek.get(k)!\<close> yields \<open>undefined\<close> for a missing key, and the method call
    on it that follows throws a \<open>TypeError\<close>: that is the error value of the model.
\<close>

subsection \<open>Data model\<close>

datatype difficulty = beginner | intermediate | advanced

datatype interviewLevel = entry | experienced

text \<open>
  \<open>ParsedQuestion\<close> of \<open>types.ts\<close>. The field \<open>id\<close> is named \<open>id_q\<close> here (\<open>id\<close> is
  the identity function of HOL) and the field \<open>keywords\<close> is named \<open>keywords_q\<close> (a
  reserved word of theory headers). \<open>weekNumber\<close> is declared a \<open>number\<close>, but the
  sampler tests it for falsiness, so an absent (\<open>undefined\<close>) week number is \<open>None\<close>.
\<close>

record ParsedQuestion =
  id_q :: string
  questionNumber :: int
  question :: string
  keywords_q :: "string list"
  modelAnswer :: string
  difficulty :: difficulty
  weekNumber :: "int option"

datatype error = TypeError

subsection \<open>The random source\<close>

type_synonym rng = "nat \<Rightarrow> rat"

text \<open>\<open>Math.random()\<close> returns a number in \<open>[0, 1)\<close>.\<close>

definition unit_draws :: "rng \<Rightarrow> bool" where
  "unit_draws rnd = (\<forall>k. 0 \<le> rnd k \<and> rnd k < 1)"

subsection \<open>\<open>shuffleArray\<close>\<close>

text \<open>
  \<^verbatim>\<open>
  const shuffled = [...array];
  for (let i = shuffled.length - 1; i > 0; i--) {
      const j = Math.floor(Math.random() * (i + 1));
      [shuffled[i], shuffled[j]] = [shuffled[j], shuffled[i]];
  }
  return shuffled;
  \<close>
  \<open>shuffle_loop rnd i shuffled k\<close> is the loop from the value \<open>i\<close> of its variable on:
  it stops at \<open>i = 0\<close>. The destructuring assignment reads both elements first, then
  writes index \<open>i\<close>, then index \<open>j\<close>. For draws in \<open>[0, 1)\<close> the index \<open>j\<close> is at most
  \<open>i\<close>, inside the array; what the model does for other draws has no counterpart in
  the source, and the theorems about the elements of a result assume \<open>unit_draws\<close>.
\<close>

fun shuffle_loop :: "rng \<Rightarrow> nat \<Rightarrow> 'a list \<Rightarrow> nat \<Rightarrow> 'a list \<times> nat" where
  "shuffle_loop rnd 0 shuffled k = (shuffled, k)"
| "shuffle_loop rnd (Suc i) shuffled k =
     (let j = nat \<lfloor>rnd k * of_nat (Suc i + 1)\<rfloor>
      in shuffle_loop rnd i (shuffled[Suc i := shuffled ! j, j := shuffled ! Suc i]) (Suc k))"

definition shuffleArray :: "rng \<Rightarrow> 'a list \<Rightarrow> nat \<Rightarrow> 'a list \<times> nat" where
  "shuffleArray rnd array k = shuffle_loop rnd (length array - 1) array k"

subsection \<open>Grouping by week\<close>

text \<open>\<open>q.weekNumber || 99\<close>: \<open>undefined\<close> and \<open>0\<close> are falsy.\<close>

definition weekNum :: "ParsedQuestion \<Rightarrow> int" where
  "weekNum q = (case weekNumber q of None \<Rightarrow> 99 | Some w \<Rightarrow> if w = 0 then 99 else w)"

type_synonym byWeekMap = "(int \<times> ParsedQuestion list) list"

text \<open>
  The body of \<open>questions.forEach\<close>: \<open>Map.set\<close> keeps the place of a key that is
  present and appends a new one (\<open>AList.update\<close>); \<open>push\<close> appends to the array
  stored under the key.
\<close>

definition group_step :: "byWeekMap \<Rightarrow> ParsedQuestion \<Rightarrow> error + byWeekMap" where
  "group_step byWeek q =
     (let byWeek1 = (if map_of byWeek (weekNum q) = None
                     then AList.update (weekNum q) [] byWeek else byWeek)
      in case map_of byWeek1 (weekNum q) of
           None \<Rightarrow> Inl TypeError
         | Some arr \<Rightarrow> Inr (AList.update (weekNum q) (arr @ [q]) byWeek1))"

fun groupByWeek :: "ParsedQuestion list \<Rightarrow> byWeekMap \<Rightarrow> error + byWeekMap" where
  "groupByWeek [] byWeek = Inr byWeek"
| "groupByWeek (q # qs) byWeek =
     (case group_step byWeek q of
        Inl e \<Rightarrow> Inl e
      | Inr byWeek' \<Rightarrow> groupByWeek qs byWeek')"

subsection \<open>The order of the weeks\<close>

text \<open>
  \<open>Array.from(byWeek.keys()).sort()\<close> is called without a comparison function, so
  the keys are compared as strings, by code units. \<open>ToString\<close> is the decimal
  numeral JavaScript prints for an integer of absolute value below \<open>10^21\<close>.
\<close>

definition digit_char :: "nat \<Rightarrow> char" where
  "digit_char d = ''0123456789'' ! d"

fun nat_digits :: "nat \<Rightarrow> string" where
  "nat_digits n =
     (if n < 10 then [digit_char n] else nat_digits (n div 10) @ [digit_char (n mod 10)])"

declare nat_digits.simps [simp del]

definition ToString :: "int \<Rightarrow> string" where
  "ToString w = (if w < 0 then CHR ''-'' # nat_digits (nat (- w)) else nat_digits (nat w))"

definition sorted_weeks :: "byWeekMap \<Rightarrow> int list" where
  "sorted_weeks byWeek = sort_key ToString (map fst byWeek)"

subsection \<open>Quotas and difficulty targets\<close>

text \<open>The remainder operator \<open>%\<close> of JavaScript takes the sign of the dividend.\<close>

definition js_rem :: "int \<Rightarrow> int \<Rightarrow> int" where
  "js_rem a b = sgn a * (\<bar>a\<bar> mod \<bar>b\<bar>)"

text \<open>\<open>Math.floor(count / numWeeks)\<close> and \<open>count % numWeeks\<close>.\<close>

definition perWeek :: "int \<Rightarrow> nat \<Rightarrow> int" where
  "perWeek cnt numWeeks = \<lfloor>(of_int cnt :: rat) / of_nat numWeeks\<rfloor>"

definition remainder :: "int \<Rightarrow> nat \<Rightarrow> int" where
  "remainder cnt numWeeks = js_rem cnt (int numWeeks)"

text \<open>\<open>perWeek + (index < remainder ? 1 : 0)\<close>\<close>

definition weekCount :: "int \<Rightarrow> int \<Rightarrow> nat \<Rightarrow> int" where
  "weekCount pw rm index = pw + (if int index < rm then 1 else 0)"

text \<open>\<open>Math.round\<close> rounds to the nearest integer, a half towards \<open>+\<infinity>\<close>.\<close>

definition Math_round :: "rat \<Rightarrow> int" where
  "Math_round x = \<lfloor>x + 1 / 2\<rfloor>"

definition beginnerRatio :: "interviewLevel \<Rightarrow> rat" where
  "beginnerRatio lvl = (if lvl = experienced then 1 / 10 else 5 / 10)"

definition intermediateRatio :: "interviewLevel \<Rightarrow> rat" where
  "intermediateRatio lvl = (if lvl = experienced then 4 / 10 else 4 / 10)"

definition advancedRatio :: "interviewLevel \<Rightarrow> rat" where
  "advancedRatio lvl = (if lvl = experienced then 5 / 10 else 1 / 10)"

definition advancedCount :: "interviewLevel \<Rightarrow> ParsedQuestion list \<Rightarrow> int \<Rightarrow> int" where
  "advancedCount lvl advancedQuestions wc =
     min (int (length advancedQuestions)) (max 0 (Math_round (of_int wc * advancedRatio lvl)))"

definition intermediateCount :: "interviewLevel \<Rightarrow> ParsedQuestion list \<Rightarrow> int \<Rightarrow> int" where
  "intermediateCount lvl intermediateQuestions wc =
     min (int (length intermediateQuestions))
       (max 0 (Math_round (of_int wc * intermediateRatio lvl)))"

definition beginnerCount :: "int \<Rightarrow> int \<Rightarrow> int \<Rightarrow> int" where
  "beginnerCount wc ic ac = max 0 (wc - ic - ac)"

subsection \<open>Selection\<close>

text \<open>\<open>xs.slice(0, e)\<close> for an integer \<open>e\<close>: a negative end counts from the end.\<close>

definition slice0 :: "'a list \<Rightarrow> int \<Rightarrow> 'a list" where
  "slice0 xs e = (if e < 0 then take (nat (int (length xs) + e)) xs else take (nat e) xs)"

text \<open>
  The backfill, written twice in the source with the same shape (for one week from
  \<open>weekQuestions\<close>, and at the end from \<open>questions\<close>):
  \<^verbatim>\<open>
  if (selected.length < count) {
      const alreadySelectedIds = new Set(selected.map(q => q.id));
      const remaining = shuffleArray(pool.filter(q => !alreadySelectedIds.has(q.id)));
      selected.push(...remaining.slice(0, count - selected.length));
  }
  \<close>
\<close>

definition fill_remaining ::
  "rng \<Rightarrow> ParsedQuestion list \<Rightarrow> ParsedQuestion list \<Rightarrow> int \<Rightarrow> nat
     \<Rightarrow> ParsedQuestion list \<times> nat" where
  "fill_remaining rnd pool selected n k =
     (if int (length selected) < n then
        (let alreadySelectedIds = set (map id_q selected);
             (remaining, k') =
                shuffleArray rnd (filter (\<lambda>q. id_q q \<notin> alreadySelectedIds) pool) k
         in (selected @ slice0 remaining (n - int (length selected)), k'))
      else (selected, k))"

text \<open>
  The stratified part of the body of \<open>weeks.forEach\<close>: the three buckets, their
  counts, and the three pushes of shuffled prefixes.
\<close>

definition stratify ::
  "rng \<Rightarrow> interviewLevel \<Rightarrow> ParsedQuestion list \<Rightarrow> int \<Rightarrow> nat
     \<Rightarrow> ParsedQuestion list \<times> nat" where
  "stratify rnd lvl weekQuestions wc k =
     (let beginnerQuestions = filter (\<lambda>q. difficulty q = beginner) weekQuestions;
          intermediateQuestions = filter (\<lambda>q. difficulty q = intermediate) weekQuestions;
          advancedQuestions = filter (\<lambda>q. difficulty q = advanced) weekQuestions;
          ac = advancedCount lvl advancedQuestions wc;
          ic = intermediateCount lvl intermediateQuestions wc;
          bc = beginnerCount wc ic ac;
          (sb, k1) = shuffleArray rnd beginnerQuestions k;
          (si, k2) = shuffleArray rnd intermediateQuestions k1;
          (sa, k3) = shuffleArray rnd advancedQuestions k2
      in (slice0 sb (min (int (length beginnerQuestions)) bc)
            @ slice0 si (min (int (length intermediateQuestions)) ic)
            @ slice0 sa (min (int (length advancedQuestions)) ac), k3))"

text \<open>The whole body for one week: \<open>weekSelected\<close> and the calls of \<open>Math.random\<close>.\<close>

definition weekSelect ::
  "rng \<Rightarrow> interviewLevel \<Rightarrow> ParsedQuestion list \<Rightarrow> int \<Rightarrow> nat
     \<Rightarrow> ParsedQuestion list \<times> nat" where
  "weekSelect rnd lvl weekQuestions wc k =
     (let (weekSelected, k3) = stratify rnd lvl weekQuestions wc k
      in fill_remaining rnd weekQuestions weekSelected wc k3)"

text \<open>\<open>weeks.forEach((week, index) => ...)\<close>, from position \<open>index\<close> on.\<close>

fun weeks_forEach ::
  "rng \<Rightarrow> byWeekMap \<Rightarrow> interviewLevel \<Rightarrow> int \<Rightarrow> int \<Rightarrow> int list \<Rightarrow> nat
     \<Rightarrow> ParsedQuestion list \<Rightarrow> nat \<Rightarrow> error + ParsedQuestion list \<times> nat" where
  "weeks_forEach rnd byWeek lvl pw rm [] index selected k = Inr (selected, k)"
| "weeks_forEach rnd byWeek lvl pw rm (week # rest) index selected k =
     (case map_of byWeek week of
        None \<Rightarrow> Inl TypeError
      | Some weekQuestions \<Rightarrow>
          (let (weekSelected, k') =
                 weekSelect rnd lvl weekQuestions (weekCount pw rm index) k
           in weeks_forEach rnd byWeek lvl pw rm rest (Suc index)
                (selected @ weekSelected) k'))"

text \<open>
  \<open>selectRandomQuestions\<close>, with the number of calls of \<open>Math.random\<close> it made
  (\<open>sample_run\<close>), and as the source returns it.
\<close>

definition sample_run ::
  "rng \<Rightarrow> ParsedQuestion list \<Rightarrow> int \<Rightarrow> interviewLevel
     \<Rightarrow> error + ParsedQuestion list \<times> nat" where
  "sample_run rnd questions cnt lvl =
     (case groupByWeek questions [] of
        Inl e \<Rightarrow> Inl e
      | Inr byWeek \<Rightarrow>
          (let weeks = sorted_weeks byWeek;
               numWeeks = length weeks
           in if numWeeks = 0 then Inr ([], 0)
              else
                (case weeks_forEach rnd byWeek lvl (perWeek cnt numWeeks)
                        (remainder cnt numWeeks) weeks 0 [] 0 of
                   Inl e \<Rightarrow> Inl e
                 | Inr (selected, k) \<Rightarrow>
                     (let (selected', k') = fill_remaining rnd questions selected cnt k
                      in Inr (shuffleArray rnd selected' k')))))"

definition selectRandomQuestions ::
  "rng \<Rightarrow> ParsedQuestion list \<Rightarrow> int \<Rightarrow> interviewLevel \<Rightarrow> error + ParsedQuestion list" where
  "selectRandomQuestions rnd questions cnt lvl =
     (case sample_run rnd questions cnt lvl of
        Inl e \<Rightarrow> Inl e
      | Inr (result, k) \<Rightarrow> Inr result)"

subsection \<open>Names for the parts of a run\<close>

text \<open>
  The array \<open>weeks\<close>, the array \<open>byWeek.get(week)\<close> and the value of \<open>weekCount\<close> at
  a position of \<open>weeks\<close>, as \<open>selectRandomQuestions\<close> computes them from its arguments.
\<close>

definition weeks_of :: "ParsedQuestion list \<Rightarrow> int list" where
  "weeks_of questions =
     (case groupByWeek questions [] of Inl e \<Rightarrow> [] | Inr byWeek \<Rightarrow> sorted_weeks byWeek)"

definition week_group :: "ParsedQuestion list \<Rightarrow> int \<Rightarrow> ParsedQuestion list" where
  "week_group questions week =
     (case groupByWeek questions [] of
        Inl e \<Rightarrow> []
      | Inr byWeek \<Rightarrow> (case map_of byWeek week of None \<Rightarrow> [] | Some g \<Rightarrow> g))"

definition week_quota :: "ParsedQuestion list \<Rightarrow> int \<Rightarrow> nat \<Rightarrow> int" where
  "week_quota questions cnt index =
     weekCount (perWeek cnt (length (weeks_of questions)))
       (remainder cnt (length (weeks_of questions))) index"

subsection \<open>The targets as the specification words them\<close>

text \<open>
  The ratio profiles (entry: beginner 0.5, intermediate 0.4, advanced 0.1; experienced:
  0.1, 0.4, 0.5) and the three targets of the difficulty stratifier, following the
  specification: the advanced and the intermediate target are the rounded product of
  quota and ratio, clamped to \<open>[0, bucket size]\<close>; the beginner target absorbs the
  remainder.
\<close>

fun spec_ratio :: "interviewLevel \<Rightarrow> difficulty \<Rightarrow> rat" where
  "spec_ratio entry beginner = 0.5"
| "spec_ratio entry intermediate = 0.4"
| "spec_ratio entry advanced = 0.1"
| "spec_ratio experienced beginner = 0.1"
| "spec_ratio experienced intermediate = 0.4"
| "spec_ratio experienced advanced = 0.5"

definition bucket :: "difficulty \<Rightarrow> ParsedQuestion list \<Rightarrow> ParsedQuestion list" where
  "bucket d qs = filter (\<lambda>q. difficulty q = d) qs"

definition spec_advancedTarget :: "interviewLevel \<Rightarrow> ParsedQuestion list \<Rightarrow> int \<Rightarrow> int" where
  "spec_advancedTarget lvl weekQuestions weekQuota =
     min (int (length (bucket advanced weekQuestions)))
       (max 0 (round (of_int weekQuota * spec_ratio lvl advanced)))"

definition spec_intermediateTarget :: "interviewLevel \<Rightarrow> ParsedQuestion list \<Rightarrow> int \<Rightarrow> int" where
  "spec_intermediateTarget lvl weekQuestions weekQuota =
     min (int (length (bucket intermediate weekQuestions)))
       (max 0 (round (of_int weekQuota * spec_ratio lvl intermediate)))"

definition spec_beginnerTarget :: "interviewLevel \<Rightarrow> ParsedQuestion list \<Rightarrow> int \<Rightarrow> int" where
  "spec_beginnerTarget lvl weekQuestions weekQuota =
     max 0 (weekQuota - spec_intermediateTarget lvl weekQuestions weekQuota
              - spec_advancedTarget lvl weekQuestions weekQuota)"

subsection \<open>Abundant supply and the share of advanced questions\<close>

text \<open>
  The targets of a week before they are clamped to the bucket sizes, as the source
  computes them (\<open>Math.max(0, Math.round(weekCount * ratio))\<close>, and the remainder for
  the beginner bucket).
\<close>

definition advancedTarget :: "interviewLevel \<Rightarrow> int \<Rightarrow> int" where
  "advancedTarget lvl wc = max 0 (Math_round (of_int wc * advancedRatio lvl))"

definition intermediateTarget :: "interviewLevel \<Rightarrow> int \<Rightarrow> int" where
  "intermediateTarget lvl wc = max 0 (Math_round (of_int wc * intermediateRatio lvl))"

definition beginnerTarget :: "interviewLevel \<Rightarrow> int \<Rightarrow> int" where
  "beginnerTarget lvl wc = max 0 (wc - intermediateTarget lvl wc - advancedTarget lvl wc)"

text \<open>
  A week is abundantly supplied for a quota when each of its three difficulty buckets
  is strictly larger than every target computed for the quota, under either profile;
  a pool is, for a count, when every one of its weeks is for its quota.
\<close>

definition abundant_week :: "ParsedQuestion list \<Rightarrow> int \<Rightarrow> bool" where
  "abundant_week weekQuestions wc =
     list_all (\<lambda>lvl.
        list_all (\<lambda>d.
           list_all (\<lambda>t. t < int (length (bucket d weekQuestions)))
             [beginnerTarget lvl wc, intermediateTarget lvl wc, advancedTarget lvl wc])
          [beginner, intermediate, advanced])
       [entry, experienced]"

definition abundant :: "ParsedQuestion list \<Rightarrow> int \<Rightarrow> bool" where
  "abundant questions cnt =
     list_all (\<lambda>i. abundant_week (week_group questions (weeks_of questions ! i))
                      (week_quota questions cnt i))
       [0..<length (weeks_of questions)]"

definition advanced_fraction :: "ParsedQuestion list \<Rightarrow> rat" where
  "advanced_fraction qs = of_nat (length (bucket advanced qs)) / of_nat (length qs)"

subsection \<open>Example pools\<close>

definition mk_question :: "string \<Rightarrow> string \<Rightarrow> difficulty \<Rightarrow> int option \<Rightarrow> ParsedQuestion" where
  "mk_question ident txt d w =
     \<lparr>id_q = ident, questionNumber = 1, question = txt, keywords_q = [], modelAnswer = [],
      difficulty = d, weekNumber = w\<rparr>"

text \<open>A run in which every call of \<open>Math.random()\<close> returns \<open>0\<close>.\<close>

definition zero_draws :: rng where
  "zero_draws = (\<lambda>k. 0)"

text \<open>Three questions with distinct ids, in the weeks 1 and 2.\<close>

definition pool_three :: "ParsedQuestion list" where
  "pool_three =
     [mk_question ''week1-q1'' ''a'' beginner (Some 1),
      mk_question ''week1-q2'' ''b'' advanced (Some 1),
      mk_question ''week2-q1'' ''c'' intermediate (Some 2)]"

text \<open>Two different beginner questions of week 1 that share an id.\<close>

definition pool_shared_id :: "ParsedQuestion list" where
  "pool_shared_id =
     [mk_question ''week1-q1'' ''first'' beginner (Some 1),
      mk_question ''week1-q1'' ''second'' beginner (Some 1)]"

text \<open>
  Ten weeks with one beginner question each, as the session setup builds a pool from
  ten selected files (the week number of a file is its position, from 1).
\<close>

definition pool_ten_weeks :: "ParsedQuestion list" where
  "pool_ten_weeks =
     [mk_question ''week1-q1'' ''one'' beginner (Some 1),
      mk_question ''week2-q1'' ''two'' beginner (Some 2),
      mk_question ''week3-q1'' ''three'' beginner (Some 3),
      mk_question ''week4-q1'' ''four'' beginner (Some 4),
      mk_question ''week5-q1'' ''five'' beginner (Some 5),
      mk_question ''week6-q1'' ''six'' beginner (Some 6),
      mk_question ''week7-q1'' ''seven'' beginner (Some 7),
      mk_question ''week8-q1'' ''eight'' beginner (Some 8),
      mk_question ''week9-q1'' ''nine'' beginner (Some 9),
      mk_question ''week10-q1'' ''ten'' beginner (Some 10)]"

text \<open>Questions whose week number is \<open>0\<close>, absent, and \<open>99\<close>.\<close>

definition pool_falsy_weeks :: "ParsedQuestion list" where
  "pool_falsy_weeks =
     [mk_question ''week0-q1'' ''zero'' beginner (Some 0),
      mk_question ''q2'' ''absent'' beginner None,
      mk_question ''week99-q1'' ''ninety-nine'' beginner (Some 99)]"

text \<open>One week with two questions of each difficulty.\<close>

definition pool_abundant :: "ParsedQuestion list" where
  "pool_abundant =
     [mk_question ''week1-q1'' ''b1'' beginner (Some 1),
      mk_question ''week1-q2'' ''b2'' beginner (Some 1),
      mk_question ''week1-q3'' ''i1'' intermediate (Some 1),
      mk_question ''week1-q4'' ''i2'' intermediate (Some 1),
      mk_question ''week1-q5'' ''a1'' advanced (Some 1),
      mk_question ''week1-q6'' ''a2'' advanced (Some 1)]"

text \<open>Two questions whose week number is \<open>0\<close>.\<close>

definition pool_week_zero :: "ParsedQuestion list" where
  "pool_week_zero =
     [mk_question ''week0-q1'' ''x'' beginner (Some 0),
      mk_question ''week0-q2'' ''y'' advanced (Some 0)]"

text \<open>A run whose first call of \<open>Math.random()\<close> returns \<open>0\<close> and every later one \<open>1/2\<close>.\<close>

definition zero_then_half :: rng where
  "zero_then_half = (\<lambda>k. if k < 1 then 0 else 1 / 2)"

subsection \<open>The same functions on a store of arrays\<close>

text \<open>
  To state which arrays the functions write, the arrays of questions live in a store:
  an address is a position in the store, \<open>h ! a\<close> is the array at address \<open>a\<close>, and a
  new array gets the next free address. Every array expression of the source that
  creates an array (\<open>[]\<close>, \<open>[...array]\<close>, \<open>filter\<close>, \<open>slice\<close>) allocates; \<open>push\<close> and the
  swaps of \<open>shuffleArray\<close> write the array they are called on, in place. The values of
  the map \<open>byWeek\<close> are addresses. The elements of the arrays are the question records:
  the source never assigns to a property of a question. The array \<open>weeks\<close> of numbers
  and the sets of ids are local values, as before.
\<close>

type_synonym 'a store = "'a list list"

definition alloc :: "'a list \<Rightarrow> 'a store \<Rightarrow> nat \<times> 'a store" where
  "alloc xs h = (length h, h @ [xs])"

text \<open>\<open>target.push(...xs)\<close>\<close>

definition push_all :: "nat \<Rightarrow> 'a list \<Rightarrow> 'a store \<Rightarrow> 'a store" where
  "push_all target xs h = h[target := h ! target @ xs]"

definition filter_st :: "('a \<Rightarrow> bool) \<Rightarrow> nat \<Rightarrow> 'a store \<Rightarrow> nat \<times> 'a store" where
  "filter_st P a h = alloc (filter P (h ! a)) h"

definition slice0_st :: "nat \<Rightarrow> int \<Rightarrow> 'a store \<Rightarrow> nat \<times> 'a store" where
  "slice0_st a e h = alloc (slice0 (h ! a) e) h"

text \<open>The loop of \<open>shuffleArray\<close>, swapping in the array at address \<open>shuffled\<close>.\<close>

fun shuffle_loop_st :: "rng \<Rightarrow> nat \<Rightarrow> nat \<Rightarrow> 'a store \<Rightarrow> nat \<Rightarrow> 'a store \<times> nat" where
  "shuffle_loop_st rnd 0 shuffled h k = (h, k)"
| "shuffle_loop_st rnd (Suc i) shuffled h k =
     (let j = nat \<lfloor>rnd k * of_nat (Suc i + 1)\<rfloor>
      in shuffle_loop_st rnd i shuffled
           (h[shuffled := (h ! shuffled)[Suc i := h ! shuffled ! j, j := h ! shuffled ! Suc i]])
           (Suc k))"

text \<open>\<open>shuffleArray\<close>: the copy \<open>[...array]\<close> is a new array; the loop writes the copy.\<close>

definition shuffleArray_st :: "rng \<Rightarrow> nat \<Rightarrow> 'a store \<Rightarrow> nat \<Rightarrow> nat \<times> 'a store \<times> nat" where
  "shuffleArray_st rnd array h k =
     (let (shuffled, h1) = alloc (h ! array) h;
          (h2, k') = shuffle_loop_st rnd (length (h1 ! shuffled) - 1) shuffled h1 k
      in (shuffled, h2, k'))"

type_synonym byWeekMap_st = "(int \<times> nat) list"

definition group_step_st ::
  "byWeekMap_st \<Rightarrow> ParsedQuestion \<Rightarrow> ParsedQuestion store
     \<Rightarrow> error + byWeekMap_st \<times> ParsedQuestion store" where
  "group_step_st byWeek q h =
     (let (byWeek1, h1) =
            (if map_of byWeek (weekNum q) = None
             then (let (arr, h') = alloc [] h in (AList.update (weekNum q) arr byWeek, h'))
             else (byWeek, h))
      in case map_of byWeek1 (weekNum q) of
           None \<Rightarrow> Inl TypeError
         | Some arr \<Rightarrow> Inr (byWeek1, push_all arr [q] h1))"

text \<open>
  \<open>questions.forEach\<close>, from index \<open>i\<close> on, for \<open>n\<close> more elements: each element is
  read from the store as it is when its turn comes.
\<close>

fun groupByWeek_st ::
  "nat \<Rightarrow> nat \<Rightarrow> nat \<Rightarrow> byWeekMap_st \<Rightarrow> ParsedQuestion store
     \<Rightarrow> error + byWeekMap_st \<times> ParsedQuestion store" where
  "groupByWeek_st questions i 0 byWeek h = Inr (byWeek, h)"
| "groupByWeek_st questions i (Suc n) byWeek h =
     (case group_step_st byWeek (h ! questions ! i) h of
        Inl e \<Rightarrow> Inl e
      | Inr (byWeek', h') \<Rightarrow> groupByWeek_st questions (Suc i) n byWeek' h')"

definition fill_remaining_st ::
  "rng \<Rightarrow> nat \<Rightarrow> nat \<Rightarrow> int \<Rightarrow> ParsedQuestion store \<Rightarrow> nat
     \<Rightarrow> ParsedQuestion store \<times> nat" where
  "fill_remaining_st rnd pool selected n h k =
     (if int (length (h ! selected)) < n then
        (let alreadySelectedIds = set (map id_q (h ! selected));
             (unselected, h1) = filter_st (\<lambda>q. id_q q \<notin> alreadySelectedIds) pool h;
             (remaining, h2, k') = shuffleArray_st rnd unselected h1 k;
             (taken, h3) = slice0_st remaining (n - int (length (h2 ! selected))) h2
         in (push_all selected (h3 ! taken) h3, k'))
      else (h, k))"

text \<open>
  One of the three lines
  \<open>weekSelected.push(...shuffleArray(bucket).slice(0, Math.min(bucket.length, c)))\<close>.
\<close>

definition take_shuffled_st ::
  "rng \<Rightarrow> nat \<Rightarrow> int \<Rightarrow> nat \<Rightarrow> ParsedQuestion store \<Rightarrow> nat \<Rightarrow> ParsedQuestion store \<times> nat" where
  "take_shuffled_st rnd bucket_addr c weekSelected h k =
     (let (shuffled, h1, k') = shuffleArray_st rnd bucket_addr h k;
          (taken, h2) = slice0_st shuffled (min (int (length (h1 ! bucket_addr))) c) h1
      in (push_all weekSelected (h2 ! taken) h2, k'))"

definition weekSelect_st ::
  "rng \<Rightarrow> interviewLevel \<Rightarrow> nat \<Rightarrow> int \<Rightarrow> ParsedQuestion store \<Rightarrow> nat
     \<Rightarrow> nat \<times> ParsedQuestion store \<times> nat" where
  "weekSelect_st rnd lvl weekQuestions wc h k =
     (let (beginnerQuestions, h1) = filter_st (\<lambda>q. difficulty q = beginner) weekQuestions h;
          (intermediateQuestions, h2) =
             filter_st (\<lambda>q. difficulty q = intermediate) weekQuestions h1;
          (advancedQuestions, h3) = filter_st (\<lambda>q. difficulty q = advanced) weekQuestions h2;
          ac = advancedCount lvl (h3 ! advancedQuestions) wc;
          ic = intermediateCount lvl (h3 ! intermediateQuestions) wc;
          bc = beginnerCount wc ic ac;
          (weekSelected, h4) = alloc [] h3;
          (h5, k1) = take_shuffled_st rnd beginnerQuestions bc weekSelected h4 k;
          (h6, k2) = take_shuffled_st rnd intermediateQuestions ic weekSelected h5 k1;
          (h7, k3) = take_shuffled_st rnd advancedQuestions ac weekSelected h6 k2;
          (h8, k4) = fill_remaining_st rnd weekQuestions weekSelected wc h7 k3
      in (weekSelected, h8, k4))"

fun weeks_forEach_st ::
  "rng \<Rightarrow> byWeekMap_st \<Rightarrow> interviewLevel \<Rightarrow> int \<Rightarrow> int \<Rightarrow> int list \<Rightarrow> nat \<Rightarrow> nat
     \<Rightarrow> ParsedQuestion store \<Rightarrow> nat \<Rightarrow> error + ParsedQuestion store \<times> nat" where
  "weeks_forEach_st rnd byWeek lvl pw rm [] index selected h k = Inr (h, k)"
| "weeks_forEach_st rnd byWeek lvl pw rm (week # rest) index selected h k =
     (case map_of byWeek week of
        None \<Rightarrow> Inl TypeError
      | Some weekQuestions \<Rightarrow>
          (let (weekSelected, h1, k') =
                 weekSelect_st rnd lvl weekQuestions (weekCount pw rm index) h k
           in weeks_forEach_st rnd byWeek lvl pw rm rest (Suc index) selected
                (push_all selected (h1 ! weekSelected) h1) k'))"

text \<open>
  \<open>selectRandomQuestions\<close> on the store: the address of the array it returns, the store
  it leaves, and the number of draws.
\<close>

definition selectRandomQuestions_st ::
  "rng \<Rightarrow> nat \<Rightarrow> int \<Rightarrow> interviewLevel \<Rightarrow> ParsedQuestion store
     \<Rightarrow> error + nat \<times> ParsedQuestion store \<times> nat" where
  "selectRandomQuestions_st rnd questions cnt lvl h =
     (case groupByWeek_st questions 0 (length (h ! questions)) [] h of
        Inl e \<Rightarrow> Inl e
      | Inr (byWeek, h1) \<Rightarrow>
          (let weeks = sort_key ToString (map fst byWeek);
               numWeeks = length weeks
           in if numWeeks = 0 then (let (result, h2) = alloc [] h1 in Inr (result, h2, 0))
              else
                (let (selected, h2) = alloc [] h1
                 in case weeks_forEach_st rnd byWeek lvl (perWeek cnt numWeeks)
                           (remainder cnt numWeeks) weeks 0 selected h2 0 of
                      Inl e \<Rightarrow> Inl e
                    | Inr (h3, k) \<Rightarrow>
                        (let (h4, k') = fill_remaining_st rnd questions selected cnt h3 k
                         in Inr (shuffleArray_st rnd selected h4 k')))))"

text \<open>
  The map of addresses \<open>bst\<close> represents the map of arrays \<open>byWeek\<close> in the store \<open>h\<close>:
  the same keys in the same order, each address holding the array of its key, all
  addresses at or above \<open>n0\<close>, and different keys at different addresses.
\<close>

definition represents ::
  "nat \<Rightarrow> ParsedQuestion store \<Rightarrow> byWeekMap_st \<Rightarrow> byWeekMap \<Rightarrow> bool" where
  "represents n0 h bst byWeek \<longleftrightarrow>
     map fst bst = map fst byWeek
     \<and> (\<forall>w. map_of byWeek w = map_option (\<lambda>a. h ! a) (map_of bst w))
     \<and> (\<forall>w a. map_of bst w = Some a \<longrightarrow> n0 \<le> a \<and> a < length h)
     \<and> (\<forall>w w' a. map_of bst w = Some a \<longrightarrow> map_of bst w' = Some a \<longrightarrow> w = w')"

text \<open>A store that holds \<open>pool_three\<close> at address 0 and another array at address 1.\<close>

definition store_two :: "ParsedQuestion store" where
  "store_two = [pool_three, pool_week_zero]"

section \<open>Lemmas\<close>

lemma draw_index_bound:
  assumes "0 \<le> u" "u < 1"
  shows "nat \<lfloor>u * of_nat (Suc n)\<rfloor> < Suc n"
proof -
  have "u * of_nat (Suc n) < of_nat (Suc n)"
    using assms by (simp add: mult_less_cancel_right1 del: of_nat_Suc)
  then have "\<lfloor>u * of_nat (Suc n)\<rfloor> < int (Suc n)"
    by (simp add: floor_less_iff del: of_nat_Suc)
  then show ?thesis by linarith
qed

lemma shuffle_loop_counter: "snd (shuffle_loop rnd i xs k) = k + i"
  by (induction i arbitrary: xs k) (simp_all add: Let_def)

lemma shuffle_loop_length: "length (fst (shuffle_loop rnd i xs k)) = length xs"
  by (induction i arbitrary: xs k) (simp_all add: Let_def)

lemma shuffle_loop_mset:
  "unit_draws rnd \<Longrightarrow> i < length xs \<Longrightarrow> mset (fst (shuffle_loop rnd i xs k)) = mset xs"
proof (induction i arbitrary: xs k)
  case 0
  then show ?case by simp
next
  case (Suc i)
  let ?j = "nat \<lfloor>rnd k * of_nat (Suc (Suc i))\<rfloor>"
  have "?j < Suc (Suc i)"
    using Suc.prems(1) draw_index_bound[of "rnd k" "Suc i"] by (simp add: unit_draws_def)
  then have j: "?j < length xs" using Suc.prems(2) by linarith
  have "mset (xs[Suc i := xs ! ?j, ?j := xs ! Suc i]) = mset xs"
    using mset_swap[OF j Suc.prems(2)] .
  moreover have "i < length (xs[Suc i := xs ! ?j, ?j := xs ! Suc i])"
    using Suc.prems(2) by simp
  ultimately show ?case
    using Suc.IH[OF Suc.prems(1), of "xs[Suc i := xs ! ?j, ?j := xs ! Suc i]" "Suc k"]
    by (simp add: Let_def)
qed

lemma shuffle_loop_cong:
  "(\<And>n. k \<le> n \<Longrightarrow> n < k + i \<Longrightarrow> rnd' n = rnd n) \<Longrightarrow>
   shuffle_loop rnd' i xs k = shuffle_loop rnd i xs k"
proof (induction i arbitrary: xs k)
  case 0
  then show ?case by simp
next
  case (Suc i)
  have "rnd' k = rnd k" using Suc.prems[of k] by simp
  moreover have "shuffle_loop rnd' i ys (Suc k) = shuffle_loop rnd i ys (Suc k)"
    if "ys = xs[Suc i := xs ! nat \<lfloor>rnd k * of_nat (Suc i + 1)\<rfloor>,
                 nat \<lfloor>rnd k * of_nat (Suc i + 1)\<rfloor> := xs ! Suc i]" for ys
    using Suc.IH[of "Suc k" ys] Suc.prems by simp
  ultimately show ?case by (simp add: Let_def)
qed

lemma shuffleArray_counter: "snd (shuffleArray rnd xs k) = k + (length xs - 1)"
  by (simp add: shuffleArray_def shuffle_loop_counter)

lemma shuffleArray_length: "length (fst (shuffleArray rnd xs k)) = length xs"
  by (simp add: shuffleArray_def shuffle_loop_length)

lemma shuffleArray_mset:
  "unit_draws rnd \<Longrightarrow> mset (fst (shuffleArray rnd xs k)) = mset xs"
proof (cases xs)
  case Nil
  then show ?thesis by (simp add: shuffleArray_def)
next
  case (Cons a list)
  assume "unit_draws rnd"
  then show ?thesis using Cons
    by (simp add: shuffleArray_def shuffle_loop_mset)
qed

lemma shuffleArray_cong:
  "(\<And>n. k \<le> n \<Longrightarrow> n < k + (length xs - 1) \<Longrightarrow> rnd' n = rnd n) \<Longrightarrow>
   shuffleArray rnd' xs k = shuffleArray rnd xs k"
  unfolding shuffleArray_def by (rule shuffle_loop_cong)

subsection \<open>slices\<close>

lemma slice0_take: "\<exists>n. slice0 xs e = take n xs"
  by (auto simp: slice0_def)

lemma mset_take_subset: "mset (take n xs) \<subseteq># mset xs"
proof -
  have "mset xs = mset (take n xs) + mset (drop n xs)"
    by (metis append_take_drop_id mset_append)
  then show ?thesis by simp
qed

lemma slice0_mset: "mset (slice0 xs e) \<subseteq># mset xs"
  using slice0_take[of xs e] mset_take_subset by metis

lemma slice0_length: "0 \<le> e \<Longrightarrow> length (slice0 xs e) = min (nat e) (length xs)"
  by (simp add: slice0_def)


subsection \<open>rounding\<close>

lemma round_tenth: "Math_round (of_int n * (1 / 10)) = (n + 5) div 10"
proof -
  have "(of_int n :: rat) * (1 / 10) + 1 / 2 = of_int (n + 5) / of_int 10" by simp
  then show ?thesis
    unfolding Math_round_def by (simp only: floor_divide_of_int_eq)
qed

lemma round_four_tenths: "Math_round (of_int n * (4 / 10)) = (4 * n + 5) div 10"
proof -
  have "(of_int n :: rat) * (4 / 10) + 1 / 2 = of_int (4 * n + 5) / of_int 10" by simp
  then show ?thesis
    unfolding Math_round_def by (simp only: floor_divide_of_int_eq)
qed

lemma round_half: "Math_round (of_int n * (5 / 10)) = (n + 1) div 2"
proof -
  have "(of_int n :: rat) * (5 / 10) + 1 / 2 = of_int (n + 1) / of_int 2" by simp
  then show ?thesis
    unfolding Math_round_def by (simp only: floor_divide_of_int_eq)
qed

lemma advanced_round:
  "Math_round (of_int n * advancedRatio lvl) = (if lvl = experienced then (n + 1) div 2 else (n + 5) div 10)"
  unfolding advancedRatio_def using round_half[of n] round_tenth[of n] by (cases lvl) simp_all

lemma intermediate_round:
  "Math_round (of_int n * intermediateRatio lvl) = (4 * n + 5) div 10"
  unfolding intermediateRatio_def using round_four_tenths[of n] by simp

lemma div_bounds:
  fixes x :: int
  assumes "0 < b"
  shows "b * (x div b) \<le> x" and "x < b * (x div b) + b"
  using mult_div_mod_eq[of b x] pos_mod_bound[OF assms, of x] pos_mod_sign[OF assms, of x]
  by linarith+

lemma entry_targets_le:
  fixes n :: int
  assumes "0 \<le> n"
  shows "(n + 5) div 10 + (4 * n + 5) div 10 \<le> n"
proof -
  consider "n = 0" | "n = 1" | "2 \<le> n" using assms by linarith
  then show ?thesis
  proof cases
    case 3
    then show ?thesis
      using div_bounds(1)[of 10 "n + 5"] div_bounds(1)[of 10 "4 * n + 5"] by linarith
  qed simp_all
qed

lemma small_int_cases:
  fixes n :: int
  assumes "0 \<le> n" "n < 10"
  shows "n \<in> {0, 1, 2, 3, 4, 5, 6, 7, 8, 9}"
proof -
  obtain m where m: "n = int m" using assms(1) zero_le_imp_eq_int by blast
  then have "m < 10" using assms(2) by simp
  then have "m \<in> {0, 1, 2, 3, 4, 5, 6, 7, 8, 9}"
    by (simp add: eval_nat_numeral less_Suc_eq)
  then show ?thesis using m by auto
qed

lemma experienced_targets_le:
  fixes n :: int
  assumes "0 \<le> n"
  shows "(n + 1) div 2 + (4 * n + 5) div 10 \<le> n"
proof (cases "n < 10")
  case True
  from small_int_cases[OF assms True] show ?thesis by auto
next
  case False
  then show ?thesis
    using div_bounds(1)[of 2 "n + 1"] div_bounds(1)[of 10 "4 * n + 5"] by linarith
qed

lemma rounds_nonneg:
  fixes n :: int
  assumes "0 \<le> n"
  shows "0 \<le> (n + 5) div 10" and "0 \<le> (4 * n + 5) div 10" and "0 \<le> (n + 1) div 2"
  using assms by (simp_all add: pos_imp_zdiv_nonneg_iff)

lemma rounds_nonpos:
  fixes n :: int
  assumes "n \<le> 0"
  shows "(n + 5) div 10 \<le> 0" and "(4 * n + 5) div 10 \<le> 0" and "(n + 1) div 2 \<le> 0"
proof -
  show "(n + 5) div 10 \<le> 0" using zdiv_mono1[of "n + 5" 5 10] assms by simp
  show "(4 * n + 5) div 10 \<le> 0" using zdiv_mono1[of "4 * n + 5" 5 10] assms by simp
  show "(n + 1) div 2 \<le> 0" using zdiv_mono1[of "n + 1" 1 2] assms by simp
qed

lemma targets_le_quota:
  assumes "0 \<le> wc"
  shows "max 0 (Math_round (of_int wc * advancedRatio lvl))
       + max 0 (Math_round (of_int wc * intermediateRatio lvl)) \<le> wc"
  unfolding advanced_round intermediate_round
  using assms entry_targets_le[OF assms] experienced_targets_le[OF assms] rounds_nonneg[OF assms]
  by (cases lvl) simp_all

lemma targets_nonpos:
  assumes "wc \<le> 0"
  shows "max 0 (Math_round (of_int wc * advancedRatio lvl)) = 0"
    and "max 0 (Math_round (of_int wc * intermediateRatio lvl)) = 0"
  unfolding advanced_round intermediate_round
  using rounds_nonpos[OF assms] by (cases lvl; simp)+

subsection \<open>grouping\<close>

lemma group_step_Inr:
  "group_step m q =
     Inr (AList.update (weekNum q) (case_option [] id (map_of m (weekNum q)) @ [q]) m)"
  by (cases "map_of m (weekNum q)") (simp_all add: group_step_def update_conv' update_last)

lemma groupByWeek_props:
  assumes "distinct (map fst m)"
  shows "\<exists>m'. groupByWeek qs m = Inr m' \<and> distinct (map fst m')
           \<and> set (map fst m') = set (map fst m) \<union> weekNum ` set qs
           \<and> (\<forall>w. map_of m' w =
                 (if w \<in> set (map fst m) \<union> weekNum ` set qs
                  then Some (case_option [] id (map_of m w) @ filter (\<lambda>q. weekNum q = w) qs)
                  else None))"
  using assms
proof (induction qs arbitrary: m)
  case Nil
  show ?case
  proof (intro exI conjI allI)
    show "groupByWeek [] m = Inr m" by simp
    show "distinct (map fst m)" by (rule Nil)
    show "set (map fst m) = set (map fst m) \<union> weekNum ` set []" by simp
    show "map_of m w =
            (if w \<in> set (map fst m) \<union> weekNum ` set []
             then Some (case_option [] id (map_of m w) @ filter (\<lambda>q. weekNum q = w) [])
             else None)" for w
      by (cases "map_of m w") (auto simp: map_of_eq_None_iff dest: map_of_SomeD intro: rev_image_eqI)
  qed
next
  case (Cons q qs)
  let ?w = "weekNum q"
  let ?g = "case_option [] id (map_of m ?w)"
  let ?m1 = "AList.update ?w (?g @ [q]) m"
  have d1: "distinct (map fst ?m1)" using Cons.prems by (rule distinct_update)
  have k1: "set (map fst ?m1) = insert ?w (set (map fst m))"
    by (auto simp: update_keys)
  have l1: "map_of ?m1 = (map_of m)(?w \<mapsto> ?g @ [q])" by (rule update_conv')
  from Cons.IH[OF d1] obtain m' where m':
    "groupByWeek qs ?m1 = Inr m'" "distinct (map fst m')"
    "set (map fst m') = set (map fst ?m1) \<union> weekNum ` set qs"
    "\<And>w. map_of m' w =
                 (if w \<in> set (map fst ?m1) \<union> weekNum ` set qs
                  then Some (case_option [] id (map_of ?m1 w) @ filter (\<lambda>q. weekNum q = w) qs)
                  else None)"
    by blast
  show ?case
  proof (intro exI conjI allI)
    show "groupByWeek (q # qs) m = Inr m'" using m'(1) by (simp add: group_step_Inr)
    show "distinct (map fst m')" by (rule m'(2))
    show "set (map fst m') = set (map fst m) \<union> weekNum ` set (q # qs)"
      using m'(3) k1 by auto
    show "map_of m' w =
            (if w \<in> set (map fst m) \<union> weekNum ` set (q # qs)
             then Some (case_option [] id (map_of m w) @ filter (\<lambda>q. weekNum q = w) (q # qs))
             else None)" for w
    proof (cases "w = ?w")
      case True
      then show ?thesis using m'(4)[of w] k1 l1 by simp
    next
      case False
      then show ?thesis using m'(4)[of w] k1 l1 by auto
    qed
  qed
qed

lemma groupByWeek_empty_map:
  "\<exists>byWeek. groupByWeek qs [] = Inr byWeek \<and> distinct (map fst byWeek)
           \<and> set (map fst byWeek) = weekNum ` set qs
           \<and> (\<forall>w. map_of byWeek w =
                 (if w \<in> weekNum ` set qs then Some (filter (\<lambda>q. weekNum q = w) qs) else None))"
proof -
  have e: "case_option [] id (map_of ([] :: byWeekMap) w) = []" for w by simp
  show ?thesis using groupByWeek_props[of "[]" qs] unfolding e append_Nil by simp
qed

lemma sorted_weeks_props:
  "set (sorted_weeks m) = set (map fst m)"
  "distinct (sorted_weeks m) = distinct (map fst m)"
  "length (sorted_weeks m) = length m"
  by (simp_all add: sorted_weeks_def)

subsection \<open>backfill\<close>

lemma fill_remaining_fst:
  "fst (fill_remaining rnd pool sel n k) =
     (if int (length sel) < n
      then sel @ slice0 (fst (shuffleArray rnd (filter (\<lambda>q. id_q q \<notin> set (map id_q sel)) pool) k))
                   (n - int (length sel))
      else sel)"
  by (simp add: fill_remaining_def Let_def split_beta)

lemma fill_remaining_snd:
  "snd (fill_remaining rnd pool sel n k) =
     (if int (length sel) < n
      then k + (length (filter (\<lambda>q. id_q q \<notin> set (map id_q sel)) pool) - 1)
      else k)"
  by (simp add: fill_remaining_def Let_def split_beta shuffleArray_counter)

lemma selected_in_complement:
  assumes "mset sel \<subseteq># mset pool"
  shows "mset sel \<subseteq># filter_mset (\<lambda>q. \<not> id_q q \<notin> set (map id_q sel)) (mset pool)"
proof -
  have "filter_mset (\<lambda>q. \<not> id_q q \<notin> set (map id_q sel)) (mset sel) = mset sel"
    by (rule filter_mset_cong[where g = "\<lambda>_. True", simplified, THEN trans]) auto
  then show ?thesis
    using multiset_filter_mono[OF assms, of "\<lambda>q. \<not> id_q q \<notin> set (map id_q sel)"] by simp
qed

lemma fill_remaining_mset:
  assumes "unit_draws rnd" and "mset sel \<subseteq># mset pool"
  shows "mset (fst (fill_remaining rnd pool sel n k)) \<subseteq># mset pool"
proof (cases "int (length sel) < n")
  case False
  then show ?thesis using assms(2) by (simp add: fill_remaining_fst)
next
  case True
  let ?P = "\<lambda>q. id_q q \<notin> set (map id_q sel)"
  let ?rem = "fst (shuffleArray rnd (filter ?P pool) k)"
  have "mset (slice0 ?rem (n - int (length sel))) \<subseteq># mset ?rem" by (rule slice0_mset)
  also have "mset ?rem = filter_mset ?P (mset pool)"
    by (simp add: shuffleArray_mset[OF assms(1)])
  finally have r: "mset (slice0 ?rem (n - int (length sel))) \<subseteq># filter_mset ?P (mset pool)" .
  have "mset sel + mset (slice0 ?rem (n - int (length sel)))
          \<subseteq># filter_mset (\<lambda>q. \<not> ?P q) (mset pool) + filter_mset ?P (mset pool)"
    using selected_in_complement[OF assms(2)] r by (rule subset_mset.add_mono)
  also have "\<dots> = mset pool"
    by (rule union_filter_mset_complement) simp
  finally show ?thesis using True by (simp add: fill_remaining_fst)
qed

lemma slice0_length_int:
  "0 \<le> e \<Longrightarrow> int (length (slice0 xs e)) = min e (int (length xs))"
  by (simp add: slice0_def)

lemma fill_remaining_length_le:
  assumes "int (length sel) \<le> n"
  shows "int (length (fst (fill_remaining rnd pool sel n k))) \<le> n"
proof (cases "int (length sel) < n")
  case True
  then show ?thesis by (simp add: fill_remaining_fst slice0_length_int)
next
  case False
  then show ?thesis using assms by (simp add: fill_remaining_fst)
qed

lemma remaining_length:
  assumes "distinct (map id_q pool)" and "mset sel \<subseteq># mset pool"
  shows "length (filter (\<lambda>q. id_q q \<notin> set (map id_q sel)) pool) = length pool - length sel"
proof -
  let ?P = "\<lambda>q. id_q q \<notin> set (map id_q sel)"
  let ?A = "filter_mset (\<lambda>q. \<not> ?P q) (mset pool)"
  have dp: "distinct pool" and inj: "inj_on id_q (set pool)"
    using assms(1) by (simp_all add: distinct_map)
  have sub: "set sel \<subseteq> set pool" using set_mset_mono[OF assms(2)] by simp
  have "?A \<subseteq># mset sel"
  proof (rule mset_subset_eqI)
    fix x
    show "count ?A x \<le> count (mset sel) x"
    proof (cases "x \<in># ?A")
      case False
      then have "count ?A x = 0" by (rule not_in_iff[THEN iffD1])
      then show ?thesis by (simp only: le0)
    next
      case True
      then have xp: "x \<in> set pool" and "id_q x \<in> id_q ` set sel" by auto
      then obtain s where s: "s \<in> set sel" "id_q s = id_q x" by auto
      then have "s = x" using inj xp sub by (auto dest: inj_onD)
      then have "1 \<le> count (mset sel) x" using s(1) by (simp add: count_mset_0_iff Suc_le_eq)
      moreover have "count ?A x \<le> 1"
        using dp distinct_count_atmost_1[of pool] by (simp add: count_mset_0_iff)
      ultimately show ?thesis by linarith
    qed
  qed
  then have eq: "?A = mset sel"
    using selected_in_complement[OF assms(2)] by (simp add: subset_mset.antisym)
  have "size (mset pool) = size (filter_mset ?P (mset pool) + ?A)"
    by (rule arg_cong[OF multiset_partition])
  then have "length pool = length (filter ?P pool) + length sel"
    unfolding size_union eq by (simp only: size_mset mset_filter[symmetric])
  then show ?thesis by simp
qed

lemma fill_remaining_length:
  assumes "distinct (map id_q pool)" and "mset sel \<subseteq># mset pool"
  shows "int (length (fst (fill_remaining rnd pool sel n k))) =
           (if int (length sel) < n then min n (int (length pool)) else int (length sel))"
proof (cases "int (length sel) < n")
  case True
  have "length sel \<le> length pool" using size_mset_mono[OF assms(2)] by simp
  then have "int (length (filter (\<lambda>q. id_q q \<notin> set (map id_q sel)) pool))
               = int (length pool) - int (length sel)"
    using remaining_length[OF assms] by simp
  then show ?thesis using True
    by (simp add: fill_remaining_fst slice0_length_int shuffleArray_length)
next
  case False
  then show ?thesis by (simp add: fill_remaining_fst)
qed

subsection \<open>one week\<close>

lemma stratify_fst:
  "fst (stratify rnd lvl wq wc k) =
     slice0 (fst (shuffleArray rnd (filter (\<lambda>q. difficulty q = beginner) wq) k))
       (min (int (length (filter (\<lambda>q. difficulty q = beginner) wq)))
          (beginnerCount wc
             (intermediateCount lvl (filter (\<lambda>q. difficulty q = intermediate) wq) wc)
             (advancedCount lvl (filter (\<lambda>q. difficulty q = advanced) wq) wc)))
     @ slice0 (fst (shuffleArray rnd (filter (\<lambda>q. difficulty q = intermediate) wq)
                      (k + (length (filter (\<lambda>q. difficulty q = beginner) wq) - 1))))
         (min (int (length (filter (\<lambda>q. difficulty q = intermediate) wq)))
            (intermediateCount lvl (filter (\<lambda>q. difficulty q = intermediate) wq) wc))
     @ slice0 (fst (shuffleArray rnd (filter (\<lambda>q. difficulty q = advanced) wq)
                      (k + (length (filter (\<lambda>q. difficulty q = beginner) wq) - 1)
                         + (length (filter (\<lambda>q. difficulty q = intermediate) wq) - 1))))
         (min (int (length (filter (\<lambda>q. difficulty q = advanced) wq)))
            (advancedCount lvl (filter (\<lambda>q. difficulty q = advanced) wq) wc))"
  unfolding stratify_def Let_def split_beta shuffleArray_counter by simp

lemma stratify_snd:
  "snd (stratify rnd lvl wq wc k) =
     k + (length (filter (\<lambda>q. difficulty q = beginner) wq) - 1)
       + (length (filter (\<lambda>q. difficulty q = intermediate) wq) - 1)
       + (length (filter (\<lambda>q. difficulty q = advanced) wq) - 1)"
  unfolding stratify_def Let_def split_beta shuffleArray_counter by simp

lemma buckets_partition:
  "mset (filter (\<lambda>q. difficulty q = beginner) wq)
     + mset (filter (\<lambda>q. difficulty q = intermediate) wq)
     + mset (filter (\<lambda>q. difficulty q = advanced) wq) = mset wq"
proof (induction wq)
  case Nil
  show ?case by simp
next
  case (Cons q wq)
  then show ?case by (cases "difficulty q") simp_all
qed

lemma shuffled_slice_mset:
  "unit_draws rnd \<Longrightarrow> mset (slice0 (fst (shuffleArray rnd xs k)) e) \<subseteq># mset xs"
  using slice0_mset[of "fst (shuffleArray rnd xs k)" e] by (simp add: shuffleArray_mset)

lemma stratify_mset:
  assumes "unit_draws rnd"
  shows "mset (fst (stratify rnd lvl wq wc k)) \<subseteq># mset wq"
proof -
  have "mset (fst (stratify rnd lvl wq wc k))
          \<subseteq># mset (filter (\<lambda>q. difficulty q = beginner) wq)
            + (mset (filter (\<lambda>q. difficulty q = intermediate) wq)
            + mset (filter (\<lambda>q. difficulty q = advanced) wq))"
    unfolding stratify_fst mset_append
    by (intro subset_mset.add_mono shuffled_slice_mset[OF assms])
  then show ?thesis by (simp only: buckets_partition add.assoc[symmetric])
qed

lemma counts_nonneg:
  "0 \<le> advancedCount lvl xs wc" "0 \<le> intermediateCount lvl xs wc" "0 \<le> beginnerCount wc ic ac"
  by (simp_all add: advancedCount_def intermediateCount_def beginnerCount_def)

lemma stratify_length:
  "int (length (fst (stratify rnd lvl wq wc k))) =
     min (int (length (filter (\<lambda>q. difficulty q = beginner) wq)))
          (beginnerCount wc
             (intermediateCount lvl (filter (\<lambda>q. difficulty q = intermediate) wq) wc)
             (advancedCount lvl (filter (\<lambda>q. difficulty q = advanced) wq) wc))
     + intermediateCount lvl (filter (\<lambda>q. difficulty q = intermediate) wq) wc
     + advancedCount lvl (filter (\<lambda>q. difficulty q = advanced) wq) wc"
proof -
  have a: "min (advancedCount lvl xs wc) (int (length xs)) = advancedCount lvl xs wc"
          "min (int (length xs)) (advancedCount lvl xs wc) = advancedCount lvl xs wc" for xs
    by (simp_all add: advancedCount_def)
  have i: "min (intermediateCount lvl xs wc) (int (length xs)) = intermediateCount lvl xs wc"
          "min (int (length xs)) (intermediateCount lvl xs wc) = intermediateCount lvl xs wc" for xs
    by (simp_all add: intermediateCount_def)
  show ?thesis
    unfolding stratify_fst length_append of_nat_add
    by (simp add: slice0_length_int counts_nonneg shuffleArray_length a i)
qed

lemma stratify_length_le:
  assumes "0 \<le> wc"
  shows "int (length (fst (stratify rnd lvl wq wc k))) \<le> wc"
proof -
  let ?ic = "intermediateCount lvl (filter (\<lambda>q. difficulty q = intermediate) wq) wc"
  let ?ac = "advancedCount lvl (filter (\<lambda>q. difficulty q = advanced) wq) wc"
  have "?ac \<le> max 0 (Math_round (of_int wc * advancedRatio lvl))"
    by (simp add: advancedCount_def)
  moreover have "?ic \<le> max 0 (Math_round (of_int wc * intermediateRatio lvl))"
    by (simp add: intermediateCount_def)
  ultimately have "?ic + ?ac \<le> wc" using targets_le_quota[OF assms, of lvl] by linarith
  then have "beginnerCount wc ?ic ?ac + ?ic + ?ac = wc" by (simp add: beginnerCount_def)
  then show ?thesis unfolding stratify_length by linarith
qed

lemma stratify_nonpos:
  assumes "wc \<le> 0"
  shows "fst (stratify rnd lvl wq wc k) = []"
proof -
  have "advancedCount lvl xs wc = 0" for xs
    using targets_nonpos(1)[OF assms, of lvl] by (simp add: advancedCount_def)
  moreover have "intermediateCount lvl xs wc = 0" for xs
    using targets_nonpos(2)[OF assms, of lvl] by (simp add: intermediateCount_def)
  moreover have "beginnerCount wc 0 0 = 0" using assms by (simp add: beginnerCount_def)
  ultimately have "int (length (fst (stratify rnd lvl wq wc k))) = 0"
    unfolding stratify_length by simp
  then show ?thesis by simp
qed

lemma weekSelect_eq:
  "weekSelect rnd lvl wq wc k =
     fill_remaining rnd wq (fst (stratify rnd lvl wq wc k)) wc (snd (stratify rnd lvl wq wc k))"
  by (simp add: weekSelect_def split_beta)

lemma weekSelect_mset:
  assumes "unit_draws rnd"
  shows "mset (fst (weekSelect rnd lvl wq wc k)) \<subseteq># mset wq"
  unfolding weekSelect_eq by (rule fill_remaining_mset[OF assms stratify_mset[OF assms]])

lemma weekSelect_length_le:
  assumes "0 \<le> wc"
  shows "int (length (fst (weekSelect rnd lvl wq wc k))) \<le> wc"
  unfolding weekSelect_eq by (rule fill_remaining_length_le[OF stratify_length_le[OF assms]])

lemma weekSelect_nonpos:
  assumes "wc \<le> 0"
  shows "fst (weekSelect rnd lvl wq wc k) = []"
  unfolding weekSelect_eq using assms by (simp add: fill_remaining_fst stratify_nonpos)

lemma weekSelect_nonempty:
  assumes "1 \<le> wc" and "wq \<noteq> []"
  shows "fst (weekSelect rnd lvl wq wc k) \<noteq> []"
proof (cases "fst (stratify rnd lvl wq wc k) = []")
  case True
  have "0 < length (slice0 (fst (shuffleArray rnd wq (snd (stratify rnd lvl wq wc k)))) wc)"
    using assms by (simp add: slice0_length shuffleArray_length)
  then show ?thesis
    unfolding weekSelect_eq using assms(1) True by (simp add: fill_remaining_fst)
next
  case False
  then show ?thesis unfolding weekSelect_eq by (simp add: fill_remaining_fst)
qed

subsection \<open>the loop over the weeks\<close>

lemma weeks_forEach_rule:
  assumes "\<And>w. w \<in> set ws \<Longrightarrow> map_of byWeek w \<noteq> None"
    and "I 0 sel k"
    and "\<And>n wq s j. n < length ws \<Longrightarrow> map_of byWeek (ws ! n) = Some wq \<Longrightarrow> I n s j \<Longrightarrow>
           I (Suc n) (s @ fst (weekSelect rnd lvl wq (weekCount pw rm (i0 + n)) j))
             (snd (weekSelect rnd lvl wq (weekCount pw rm (i0 + n)) j))"
  shows "\<exists>sel' k'. weeks_forEach rnd byWeek lvl pw rm ws i0 sel k = Inr (sel', k')
           \<and> I (length ws) sel' k'"
  using assms
proof (induction ws arbitrary: i0 sel k I)
  case Nil
  then show ?case by simp
next
  case (Cons w rest)
  from Cons.prems(1)[of w] obtain wq where wq: "map_of byWeek w = Some wq" by auto
  let ?r = "weekSelect rnd lvl wq (weekCount pw rm i0) k"
  have first: "I (Suc 0) (sel @ fst ?r) (snd ?r)"
    using Cons.prems(3)[of 0 wq sel k] wq Cons.prems(2) by simp
  have "\<exists>sel' k'. weeks_forEach rnd byWeek lvl pw rm rest (Suc i0) (sel @ fst ?r) (snd ?r)
                     = Inr (sel', k') \<and> I (Suc (length rest)) sel' k'"
  proof (rule Cons.IH[where I = "\<lambda>n. I (Suc n)"])
    show "map_of byWeek v \<noteq> None" if "v \<in> set rest" for v
      using Cons.prems(1)[of v] that by simp
    show "I (Suc 0) (sel @ fst ?r) (snd ?r)" by (rule first)
    show "I (Suc (Suc n)) (s @ fst (weekSelect rnd lvl g (weekCount pw rm (Suc i0 + n)) j))
            (snd (weekSelect rnd lvl g (weekCount pw rm (Suc i0 + n)) j))"
      if "n < length rest" "map_of byWeek (rest ! n) = Some g" "I (Suc n) s j" for n g s j
      using Cons.prems(3)[of "Suc n" g s j] that by simp
  qed
  then show ?case using wq by (simp add: split_beta)
qed

lemma weeks_of_props:
  "distinct (weeks_of qs)" "set (weeks_of qs) = weekNum ` set qs"
proof -
  obtain byWeek where "groupByWeek qs [] = Inr byWeek" "distinct (map fst byWeek)"
    "set (map fst byWeek) = weekNum ` set qs"
    using groupByWeek_empty_map[of qs] by blast
  then show "distinct (weeks_of qs)" "set (weeks_of qs) = weekNum ` set qs"
    by (simp_all add: weeks_of_def sorted_weeks_props)
qed

lemma weeks_of_Nil_iff: "weeks_of qs = [] \<longleftrightarrow> qs = []"
  using weeks_of_props(2)[of qs] by (metis image_is_empty set_empty)

lemma week_group_eq: "week_group qs w = filter (\<lambda>q. weekNum q = w) qs"
proof -
  obtain byWeek where b: "groupByWeek qs [] = Inr byWeek"
    "\<And>w. map_of byWeek w =
        (if w \<in> weekNum ` set qs then Some (filter (\<lambda>q. weekNum q = w) qs) else None)"
    using groupByWeek_empty_map[of qs] by blast
  show ?thesis
  proof (cases "w \<in> weekNum ` set qs")
    case True
    then show ?thesis using b by (simp add: week_group_def)
  next
    case False
    then have "filter (\<lambda>q. weekNum q = w) qs = []" by (auto simp: filter_empty_conv)
    then show ?thesis using b False by (simp add: week_group_def)
  qed
qed

lemma sample_run_Nil: "sample_run rnd [] cnt lvl = Inr ([], 0)"
  by (simp add: sample_run_def sorted_weeks_def)

lemma sample_run_rule:
  assumes "qs \<noteq> []"
    and "I 0 [] 0"
    and "\<And>n s j. n < length (weeks_of qs) \<Longrightarrow> I n s j \<Longrightarrow>
           I (Suc n)
             (s @ fst (weekSelect rnd lvl (week_group qs (weeks_of qs ! n)) (week_quota qs cnt n) j))
             (snd (weekSelect rnd lvl (week_group qs (weeks_of qs ! n)) (week_quota qs cnt n) j))"
  shows "\<exists>selected k. I (length (weeks_of qs)) selected k
           \<and> sample_run rnd qs cnt lvl =
               Inr (shuffleArray rnd (fst (fill_remaining rnd qs selected cnt k))
                      (snd (fill_remaining rnd qs selected cnt k)))"
proof -
  obtain byWeek where b: "groupByWeek qs [] = Inr byWeek"
    "set (map fst byWeek) = weekNum ` set qs"
    using groupByWeek_empty_map[of qs] by blast
  have w: "weeks_of qs = sorted_weeks byWeek" using b(1) by (simp add: weeks_of_def)
  have g: "map_of byWeek v = Some wq \<Longrightarrow> week_group qs v = wq" for v wq
    using b(1) by (simp add: week_group_def)
  have ne: "length (sorted_weeks byWeek) \<noteq> 0"
    using weeks_of_Nil_iff[of qs] assms(1) w by simp
  have "\<exists>sel' k'. weeks_forEach rnd byWeek lvl (perWeek cnt (length (weeks_of qs)))
            (remainder cnt (length (weeks_of qs))) (weeks_of qs) 0 [] 0 = Inr (sel', k')
           \<and> I (length (weeks_of qs)) sel' k'"
  proof (rule weeks_forEach_rule)
    show "map_of byWeek v \<noteq> None" if "v \<in> set (weeks_of qs)" for v
      using that b(2) unfolding w sorted_weeks_props(1)
      by (simp add: map_of_eq_None_iff)
    show "I 0 [] 0" by (rule assms(2))
    show "I (Suc n) (s @ fst (weekSelect rnd lvl wq
                (weekCount (perWeek cnt (length (weeks_of qs)))
                   (remainder cnt (length (weeks_of qs))) (0 + n)) j))
            (snd (weekSelect rnd lvl wq
                (weekCount (perWeek cnt (length (weeks_of qs)))
                   (remainder cnt (length (weeks_of qs))) (0 + n)) j))"
      if "n < length (weeks_of qs)" "map_of byWeek (weeks_of qs ! n) = Some wq" "I n s j"
      for n wq s j
      using assms(3)[OF that(1) that(3)] g[OF that(2)] by (simp add: week_quota_def)
  qed
  then obtain selected k where
    "weeks_forEach rnd byWeek lvl (perWeek cnt (length (weeks_of qs)))
        (remainder cnt (length (weeks_of qs))) (weeks_of qs) 0 [] 0 = Inr (selected, k)"
    "I (length (weeks_of qs)) selected k"
    by blast
  then show ?thesis
    using b(1) ne unfolding w by (auto simp: sample_run_def Let_def split_beta)
qed

subsection \<open>quotas\<close>

lemma perWeek_div: "perWeek cnt n = cnt div int n"
proof -
  have "(of_int cnt :: rat) / of_nat n = of_int cnt / of_int (int n)" by simp
  then show ?thesis unfolding perWeek_def by (simp only: floor_divide_of_int_eq)
qed

lemma remainder_mod: "0 \<le> cnt \<Longrightarrow> remainder cnt n = cnt mod int n"
  by (cases "cnt = 0") (simp_all add: remainder_def js_rem_def)

lemma remainder_nonpos:
  assumes "cnt \<le> 0"
  shows "remainder cnt n \<le> 0"
proof (cases "n = 0")
  case True
  then show ?thesis using assms by (simp add: remainder_def js_rem_def sgn_if)
next
  case False
  then have "0 \<le> \<bar>cnt\<bar> mod int n" by simp
  then show ?thesis using assms
    by (simp add: remainder_def js_rem_def sgn_if del: abs_of_nonpos)
qed

lemma extra_sum:
  "(\<Sum>i<n. if int i < rm then 1 else 0 :: int) = min (int n) (max 0 rm)"
  by (induction n) auto

lemma weekCount_sum:
  "(\<Sum>i<n. weekCount pw rm i) = int n * pw + min (int n) (max 0 rm)"
  unfolding weekCount_def by (simp add: sum.distrib extra_sum)

lemma quota_sum:
  assumes "0 \<le> cnt" and "0 < n"
  shows "(\<Sum>i<n. weekCount (perWeek cnt n) (remainder cnt n) i) = cnt"
proof -
  have "0 \<le> cnt mod int n" "cnt mod int n < int n" using assms(2) by simp_all
  then show ?thesis
    unfolding weekCount_sum perWeek_div remainder_mod[OF assms(1)]
    by (simp add: min_def max_def)
qed

lemma quota_nonneg:
  assumes "0 \<le> cnt"
  shows "0 \<le> weekCount (perWeek cnt n) (remainder cnt n) i"
proof -
  have "0 \<le> cnt div int n" using assms by (simp add: pos_imp_zdiv_nonneg_iff div_int_pos_iff)
  then show ?thesis by (simp add: weekCount_def perWeek_div)
qed

lemma quota_nonpos:
  assumes "cnt \<le> 0"
  shows "weekCount (perWeek cnt n) (remainder cnt n) i \<le> 0"
proof -
  have "cnt div int n \<le> 0"
  proof (cases "n = 0")
    case True
    then show ?thesis by simp
  next
    case False
    then show ?thesis using zdiv_mono1[of cnt 0 "int n"] assms by simp
  qed
  moreover have "\<not> int i < remainder cnt n" using remainder_nonpos[OF assms, of n] by linarith
  ultimately show ?thesis by (simp add: weekCount_def perWeek_div)
qed

lemma quota_pos:
  assumes "int n \<le> cnt" and "0 < n"
  shows "1 \<le> weekCount (perWeek cnt n) (remainder cnt n) i"
proof -
  have "int n div int n \<le> cnt div int n" using assms by (intro zdiv_mono1) simp_all
  then have "1 \<le> cnt div int n" using assms(2) by simp
  then show ?thesis by (simp add: weekCount_def perWeek_div)
qed

subsection \<open>what a run selects\<close>

lemma nth_notin_take:
  assumes "distinct ws" and "n < length ws"
  shows "ws ! n \<notin> set (take n ws)"
proof
  assume "ws ! n \<in> set (take n ws)"
  then obtain i where i: "i < n" "take n ws ! i = ws ! n"
    using assms(2) by (auto simp: in_set_conv_nth)
  then have "ws ! i = ws ! n" by simp
  then show False using assms i(1) by (simp add: nth_eq_iff_index_eq)
qed

lemma filter_take_Suc:
  assumes "distinct ws" and "n < length ws"
  shows "filter_mset (\<lambda>q. f q \<in> set (take (Suc n) ws)) M =
           filter_mset (\<lambda>q. f q \<in> set (take n ws)) M + filter_mset (\<lambda>q. f q = ws ! n) M"
proof (rule multiset_eqI)
  fix a
  show "count (filter_mset (\<lambda>q. f q \<in> set (take (Suc n) ws)) M) a =
          count (filter_mset (\<lambda>q. f q \<in> set (take n ws)) M
                   + filter_mset (\<lambda>q. f q = ws ! n) M) a"
    using nth_notin_take[OF assms] assms(2) by (auto simp: take_Suc_conv_app_nth)
qed

lemma quota_sum_run:
  assumes "0 \<le> cnt" and "qs \<noteq> []"
  shows "(\<Sum>i<length (weeks_of qs). week_quota qs cnt i) = cnt"
proof -
  have "0 < length (weeks_of qs)" using weeks_of_Nil_iff[of qs] assms(2) by simp
  then show ?thesis unfolding week_quota_def by (rule quota_sum[OF assms(1)])
qed

lemma run_selected:
  assumes "unit_draws rnd" and "qs \<noteq> []"
  shows "\<exists>selected k. mset selected \<subseteq># mset qs
           \<and> (0 \<le> cnt \<longrightarrow> int (length selected) \<le> cnt)
           \<and> sample_run rnd qs cnt lvl =
               Inr (shuffleArray rnd (fst (fill_remaining rnd qs selected cnt k))
                      (snd (fill_remaining rnd qs selected cnt k)))"
proof -
  let ?W = "weeks_of qs"
  let ?I = "\<lambda>n s (j::nat). mset s \<subseteq># filter_mset (\<lambda>q. weekNum q \<in> set (take n ?W)) (mset qs)
              \<and> (0 \<le> cnt \<longrightarrow> int (length s) \<le> (\<Sum>i<n. week_quota qs cnt i))"
  have "\<exists>selected k. ?I (length ?W) selected k
           \<and> sample_run rnd qs cnt lvl =
               Inr (shuffleArray rnd (fst (fill_remaining rnd qs selected cnt k))
                      (snd (fill_remaining rnd qs selected cnt k)))"
  proof (rule sample_run_rule[OF assms(2)])
    show "?I 0 [] 0" by simp
  next
    fix n s j
    assume n: "n < length ?W" and inv: "?I n s j"
    let ?ws = "fst (weekSelect rnd lvl (week_group qs (?W ! n)) (week_quota qs cnt n) j)"
    have "mset ?ws \<subseteq># filter_mset (\<lambda>q. weekNum q = ?W ! n) (mset qs)"
      using weekSelect_mset[OF assms(1), of lvl "week_group qs (?W ! n)"]
      by (simp add: week_group_eq)
    then have "mset (s @ ?ws) \<subseteq># filter_mset (\<lambda>q. weekNum q \<in> set (take (Suc n) ?W)) (mset qs)"
      unfolding filter_take_Suc[OF weeks_of_props(1) n] mset_append
      using inv by (intro subset_mset.add_mono) simp_all
    moreover have "int (length (s @ ?ws)) \<le> (\<Sum>i<Suc n. week_quota qs cnt i)" if "0 \<le> cnt"
    proof -
      have "int (length ?ws) \<le> week_quota qs cnt n"
        by (rule weekSelect_length_le) (simp add: week_quota_def quota_nonneg[OF that])
      then show ?thesis using inv that by simp
    qed
    ultimately show "?I (Suc n) (s @ ?ws)
        (snd (weekSelect rnd lvl (week_group qs (?W ! n)) (week_quota qs cnt n) j))"
      by blast
  qed
  then obtain selected k where sel:
    "mset selected \<subseteq># filter_mset (\<lambda>q. weekNum q \<in> set (take (length ?W) ?W)) (mset qs)"
    "0 \<le> cnt \<longrightarrow> int (length selected) \<le> (\<Sum>i<length ?W. week_quota qs cnt i)"
    "sample_run rnd qs cnt lvl =
               Inr (shuffleArray rnd (fst (fill_remaining rnd qs selected cnt k))
                      (snd (fill_remaining rnd qs selected cnt k)))"
    by blast
  have "mset selected \<subseteq># mset qs"
    using sel(1) multiset_filter_subset subset_mset.order_trans by blast
  moreover have "0 \<le> cnt \<longrightarrow> int (length selected) \<le> cnt"
    using sel(2) quota_sum_run[OF _ assms(2), of cnt] by simp
  ultimately show ?thesis using sel(3) by blast
qed

lemma run_result:
  assumes "unit_draws rnd"
  shows "\<exists>res k. sample_run rnd qs cnt lvl = Inr (res, k) \<and> mset res \<subseteq># mset qs
           \<and> (distinct (map id_q qs) \<longrightarrow> 0 \<le> cnt
                \<longrightarrow> int (length res) = min cnt (int (length qs)))"
proof (cases "qs = []")
  case True
  then show ?thesis by (simp add: sample_run_Nil)
next
  case False
  from run_selected[OF assms False, of cnt lvl] obtain selected k where sel:
    "mset selected \<subseteq># mset qs" "0 \<le> cnt \<longrightarrow> int (length selected) \<le> cnt"
    "sample_run rnd qs cnt lvl =
               Inr (shuffleArray rnd (fst (fill_remaining rnd qs selected cnt k))
                      (snd (fill_remaining rnd qs selected cnt k)))"
    by blast
  let ?f = "fill_remaining rnd qs selected cnt k"
  let ?r = "shuffleArray rnd (fst ?f) (snd ?f)"
  have m: "mset (fst ?r) \<subseteq># mset qs"
    using fill_remaining_mset[OF assms sel(1)] by (simp add: shuffleArray_mset[OF assms])
  have "int (length (fst ?r)) = min cnt (int (length qs))"
    if "distinct (map id_q qs)" "0 \<le> cnt"
  proof -
    have "int (length selected) \<le> int (length qs)" using size_mset_mono[OF sel(1)] by simp
    then show ?thesis
      using fill_remaining_length[OF that(1) sel(1), of rnd cnt k] sel(2) that(2)
      by (simp add: shuffleArray_length)
  qed
  then show ?thesis using m sel(3) by (metis prod.collapse)
qed

lemma distinct_map_submset:
  assumes "mset xs \<subseteq># mset ys" and "distinct (map f ys)"
  shows "distinct (map f xs)"
proof -
  have "image_mset f (mset xs) \<subseteq># image_mset f (mset ys)"
    using assms(1) by (rule image_mset_subseteq_mono)
  then have le: "count (mset (map f xs)) a \<le> count (mset (map f ys)) a" for a
    by (simp add: mset_subset_eq_count)
  have "count (mset (map f ys)) a \<le> 1" for a
    using assms(2) by (simp add: distinct_count_atmost_1)
  then have "count (mset (map f xs)) a \<le> 1" for a using le[of a] by (meson order_trans)
  then show ?thesis
    unfolding distinct_count_atmost_1[of "map f xs"]
    by (metis count_mset_0_iff le_antisym less_one not_le not_less_iff_gr_or_eq)
qed

subsection \<open>runs that never fail\<close>

lemma sample_run_total: "\<exists>res k. sample_run rnd qs cnt lvl = Inr (res, k)"
proof (cases "qs = []")
  case True
  then show ?thesis by (simp add: sample_run_Nil)
next
  case False
  from sample_run_rule[OF False, of "\<lambda>n s j. True" rnd lvl cnt]
  show ?thesis by (metis prod.collapse)
qed

lemma selectRandomQuestions_eq:
  "sample_run rnd qs cnt lvl = Inr (res, k) \<Longrightarrow> selectRandomQuestions rnd qs cnt lvl = Inr res"
  by (simp add: selectRandomQuestions_def)

lemma sample_run_nonpos:
  assumes "cnt \<le> 0"
  shows "\<exists>k. sample_run rnd qs cnt lvl = Inr ([], k)"
proof (cases "qs = []")
  case True
  then show ?thesis by (simp add: sample_run_Nil)
next
  case False
  have "\<exists>selected k. selected = []
           \<and> sample_run rnd qs cnt lvl =
               Inr (shuffleArray rnd (fst (fill_remaining rnd qs selected cnt k))
                      (snd (fill_remaining rnd qs selected cnt k)))"
  proof (rule sample_run_rule[OF False])
    show "[] = ([] :: ParsedQuestion list)" by simp
  next
    fix n and s :: "ParsedQuestion list" and j :: nat
    assume "s = []"
    moreover have "week_quota qs cnt n \<le> 0"
      unfolding week_quota_def by (rule quota_nonpos[OF assms])
    ultimately show "s @ fst (weekSelect rnd lvl (week_group qs (weeks_of qs ! n))
                            (week_quota qs cnt n) j) = []"
      by (simp add: weekSelect_nonpos)
  qed
  then obtain k where
    "sample_run rnd qs cnt lvl =
       Inr (shuffleArray rnd (fst (fill_remaining rnd qs [] cnt k))
              (snd (fill_remaining rnd qs [] cnt k)))"
    by blast
  then show ?thesis using assms
    by (simp add: fill_remaining_def shuffleArray_def)
qed

subsection \<open>every week is covered\<close>

lemma week_group_nonempty:
  assumes "w \<in> set (weeks_of qs)"
  shows "week_group qs w \<noteq> []"
proof -
  from assms obtain q where "q \<in> set qs" "weekNum q = w"
    unfolding weeks_of_props(2) by auto
  then show ?thesis by (auto simp: week_group_eq filter_empty_conv)
qed

lemma weekSelect_set:
  assumes "unit_draws rnd"
  shows "set (fst (weekSelect rnd lvl wq wc k)) \<subseteq> set wq"
  using set_mset_mono[OF weekSelect_mset[OF assms, of lvl wq wc k]] by simp

lemma run_covers_weeks:
  assumes "unit_draws rnd" and "int (length (weeks_of qs)) \<le> cnt"
  shows "\<exists>res k. sample_run rnd qs cnt lvl = Inr (res, k)
           \<and> (\<forall>w \<in> set (weeks_of qs). \<exists>q \<in> set res. weekNum q = w)"
proof (cases "qs = []")
  case True
  then show ?thesis using weeks_of_Nil_iff[of qs] by (simp add: sample_run_Nil)
next
  case False
  let ?W = "weeks_of qs"
  have pos: "0 < length ?W" using weeks_of_Nil_iff[of qs] False by simp
  let ?I = "\<lambda>n (s :: ParsedQuestion list) (j :: nat). \<forall>i<n. \<exists>q \<in> set s. weekNum q = ?W ! i"
  have "\<exists>selected k. ?I (length ?W) selected k
           \<and> sample_run rnd qs cnt lvl =
               Inr (shuffleArray rnd (fst (fill_remaining rnd qs selected cnt k))
                      (snd (fill_remaining rnd qs selected cnt k)))"
  proof (rule sample_run_rule[OF False])
    show "?I 0 [] 0" by simp
  next
    fix n s j
    assume n: "n < length ?W" and inv: "?I n s j"
    let ?ws = "fst (weekSelect rnd lvl (week_group qs (?W ! n)) (week_quota qs cnt n) j)"
    have "1 \<le> week_quota qs cnt n"
      unfolding week_quota_def by (rule quota_pos[OF assms(2) pos])
    moreover have "week_group qs (?W ! n) \<noteq> []"
      using n by (intro week_group_nonempty) simp
    ultimately have "?ws \<noteq> []" by (rule weekSelect_nonempty)
    then obtain q where q: "q \<in> set ?ws" by (cases ?ws) auto
    then have "q \<in> set (week_group qs (?W ! n))"
      using weekSelect_set[OF assms(1), of lvl "week_group qs (?W ! n)"] by blast
    then have "weekNum q = ?W ! n" by (simp add: week_group_eq)
    then have new: "\<exists>q \<in> set (s @ ?ws). weekNum q = ?W ! n" using q by auto
    have "\<exists>q \<in> set (s @ ?ws). weekNum q = ?W ! i" if "i < Suc n" for i
    proof (cases "i = n")
      case True
      then show ?thesis using new by simp
    next
      case False
      then have "i < n" using that by simp
      then show ?thesis using inv by auto
    qed
    then show "?I (Suc n) (s @ ?ws)
        (snd (weekSelect rnd lvl (week_group qs (?W ! n)) (week_quota qs cnt n) j))"
      by blast
  qed
  then obtain selected k where sel: "?I (length ?W) selected k"
    "sample_run rnd qs cnt lvl =
               Inr (shuffleArray rnd (fst (fill_remaining rnd qs selected cnt k))
                      (snd (fill_remaining rnd qs selected cnt k)))"
    by blast
  let ?f = "fill_remaining rnd qs selected cnt k"
  let ?r = "shuffleArray rnd (fst ?f) (snd ?f)"
  have "set selected \<subseteq> set (fst ?f)" by (auto simp: fill_remaining_fst)
  moreover have "set (fst ?r) = set (fst ?f)"
    using shuffleArray_mset[OF assms(1), of "fst ?f" "snd ?f"] by (rule mset_eq_setD)
  ultimately have sub: "set selected \<subseteq> set (fst ?r)" by simp
  have "\<exists>q \<in> set (fst ?r). weekNum q = w" if "w \<in> set ?W" for w
  proof -
    from that obtain i where "i < length ?W" "?W ! i = w" by (auto simp: in_set_conv_nth)
    then show ?thesis using sel(1) sub by blast
  qed
  then show ?thesis using sel(2) by (metis prod.collapse)
qed

subsection \<open>the catch-all week\<close>

lemma weekNum_99_iff:
  "weekNum q = 99 \<longleftrightarrow> weekNumber q = None \<or> weekNumber q = Some 0 \<or> weekNumber q = Some 99"
  by (cases "weekNumber q") (simp_all add: weekNum_def)

lemma weekNum_nonzero: "weekNum q \<noteq> 0"
  by (cases "weekNumber q") (simp_all add: weekNum_def)

lemma distinct_singleton_set:
  assumes "set xs = {w}" and "distinct xs"
  shows "xs = [w]"
proof (cases xs)
  case Nil
  then show ?thesis using assms(1) by simp
next
  case (Cons a rest)
  then have a: "a = w" using assms(1) by auto
  have "set rest \<subseteq> {w}" using assms(1) Cons by auto
  moreover have "w \<notin> set rest" using assms(2) Cons a by simp
  ultimately have "rest = []" by (cases rest) auto
  then show ?thesis using Cons a by simp
qed

lemma groupByWeek_single_week:
  assumes "qs \<noteq> []" and "\<forall>q \<in> set qs. weekNum q = w"
  shows "groupByWeek qs [] = Inr [(w, qs)]"
proof -
  obtain byWeek where b: "groupByWeek qs [] = Inr byWeek" "distinct (map fst byWeek)"
    "set (map fst byWeek) = weekNum ` set qs"
    "\<And>v. map_of byWeek v =
        (if v \<in> weekNum ` set qs then Some (filter (\<lambda>q. weekNum q = v) qs) else None)"
    using groupByWeek_empty_map[of qs] by blast
  obtain q0 where "q0 \<in> set qs" using assms(1) by (cases qs) auto
  then have img: "weekNum ` set qs = {w}" using assms(2) by (auto intro: rev_image_eqI)
  have "set (map fst byWeek) = {w}" using b(3) img by simp
  then have "map fst byWeek = [w]"
    using b(2) by (rule distinct_singleton_set)
  then obtain g where g: "byWeek = [(w, g)]" by (cases byWeek) auto
  have "filter (\<lambda>q. weekNum q = w) qs = qs" using assms(2) by (simp add: filter_id_conv)
  then have "g = qs" using b(4)[of w] g img by simp
  then show ?thesis using b(1) g by simp
qed

subsection \<open>the difficulties of the stratified picks\<close>

lemma shuffled_slice_difficulty:
  assumes "unit_draws rnd"
    and "q \<in> set (slice0 (fst (shuffleArray rnd (filter (\<lambda>q. difficulty q = d) wq) k)) e)"
  shows "difficulty q = d"
proof -
  have "set (slice0 (fst (shuffleArray rnd (filter (\<lambda>q. difficulty q = d) wq) k)) e)
          \<subseteq> set (filter (\<lambda>q. difficulty q = d) wq)"
    using set_mset_mono[OF shuffled_slice_mset[OF assms(1),
          of "filter (\<lambda>q. difficulty q = d) wq" k e]]
    by (simp only: set_mset_mset)
  then show ?thesis using assms(2) by auto
qed

lemma filter_all: "(\<And>x. x \<in> set xs \<Longrightarrow> P x) \<Longrightarrow> filter P xs = xs"
  by (simp add: filter_id_conv)

lemma filter_none: "(\<And>x. x \<in> set xs \<Longrightarrow> \<not> P x) \<Longrightarrow> filter P xs = []"
  by (simp add: filter_empty_conv)

lemma bucket_of_slice:
  assumes "unit_draws rnd"
  shows "bucket d' (slice0 (fst (shuffleArray rnd (filter (\<lambda>q. difficulty q = d) wq) k)) e) =
           (if d' = d then slice0 (fst (shuffleArray rnd (filter (\<lambda>q. difficulty q = d) wq) k)) e
            else [])"
proof (cases "d' = d")
  case True
  have "filter (\<lambda>q. difficulty q = d)
          (slice0 (fst (shuffleArray rnd (filter (\<lambda>q. difficulty q = d) wq) k)) e)
        = slice0 (fst (shuffleArray rnd (filter (\<lambda>q. difficulty q = d) wq) k)) e"
    by (rule filter_all) (use shuffled_slice_difficulty[OF assms] in blast)
  then show ?thesis using True by (simp add: bucket_def)
next
  case False
  have "filter (\<lambda>q. difficulty q = d')
          (slice0 (fst (shuffleArray rnd (filter (\<lambda>q. difficulty q = d) wq) k)) e) = []"
    by (rule filter_none) (use False shuffled_slice_difficulty[OF assms] in blast)
  then show ?thesis using False by (simp add: bucket_def)
qed

lemma bucket_append: "bucket d (xs @ ys) = bucket d xs @ bucket d ys"
  by (simp add: bucket_def)

lemma stratify_buckets:
  assumes "unit_draws rnd"
  shows "int (length (bucket advanced (fst (stratify rnd lvl wq wc k))))
           = advancedCount lvl (bucket advanced wq) wc"
    and "int (length (bucket intermediate (fst (stratify rnd lvl wq wc k))))
           = intermediateCount lvl (bucket intermediate wq) wc"
    and "int (length (bucket beginner (fst (stratify rnd lvl wq wc k))))
           = min (int (length (bucket beginner wq)))
               (beginnerCount wc (intermediateCount lvl (bucket intermediate wq) wc)
                  (advancedCount lvl (bucket advanced wq) wc))"
proof -
  have a: "min (advancedCount lvl xs wc) (int (length xs)) = advancedCount lvl xs wc"
          "min (int (length xs)) (advancedCount lvl xs wc) = advancedCount lvl xs wc" for xs
    by (simp_all add: advancedCount_def)
  have i: "min (intermediateCount lvl xs wc) (int (length xs)) = intermediateCount lvl xs wc"
          "min (int (length xs)) (intermediateCount lvl xs wc) = intermediateCount lvl xs wc" for xs
    by (simp_all add: intermediateCount_def)
  show "int (length (bucket advanced (fst (stratify rnd lvl wq wc k))))
           = advancedCount lvl (bucket advanced wq) wc"
    unfolding stratify_fst bucket_append bucket_of_slice[OF assms]
    by (simp add: slice0_length_int counts_nonneg shuffleArray_length a bucket_def)
  show "int (length (bucket intermediate (fst (stratify rnd lvl wq wc k))))
           = intermediateCount lvl (bucket intermediate wq) wc"
    unfolding stratify_fst bucket_append bucket_of_slice[OF assms]
    by (simp add: slice0_length_int counts_nonneg shuffleArray_length i bucket_def)
  show "int (length (bucket beginner (fst (stratify rnd lvl wq wc k))))
           = min (int (length (bucket beginner wq)))
               (beginnerCount wc (intermediateCount lvl (bucket intermediate wq) wc)
                  (advancedCount lvl (bucket advanced wq) wc))"
    unfolding stratify_fst bucket_append bucket_of_slice[OF assms]
    by (simp add: slice0_length_int counts_nonneg shuffleArray_length bucket_def)
qed

subsection \<open>the targets of the specification\<close>

lemma Math_round_round: "Math_round x = round x"
  by (simp add: Math_round_def round_def)

lemma spec_ratio_eq:
  "spec_ratio lvl beginner = beginnerRatio lvl"
  "spec_ratio lvl intermediate = intermediateRatio lvl"
  "spec_ratio lvl advanced = advancedRatio lvl"
  by (cases lvl; simp add: beginnerRatio_def intermediateRatio_def advancedRatio_def)+

lemma spec_targets_eq:
  "advancedCount lvl (bucket advanced wq) wc = spec_advancedTarget lvl wq wc"
  "intermediateCount lvl (bucket intermediate wq) wc = spec_intermediateTarget lvl wq wc"
  "beginnerCount wc (intermediateCount lvl (bucket intermediate wq) wc)
     (advancedCount lvl (bucket advanced wq) wc) = spec_beginnerTarget lvl wq wc"
  by (simp_all add: advancedCount_def intermediateCount_def beginnerCount_def
      spec_advancedTarget_def spec_intermediateTarget_def spec_beginnerTarget_def
      Math_round_round spec_ratio_eq)

lemma weekSelect_length_week:
  assumes "unit_draws rnd"
  shows "length (fst (weekSelect rnd lvl wq wc k)) \<le> length wq"
  using size_mset_mono[OF weekSelect_mset[OF assms, of lvl wq wc k]] by simp

subsection \<open>abundant supply\<close>

lemma abundant_weekD:
  assumes "abundant_week wq wc"
  shows "advancedTarget lvl wc < int (length (bucket advanced wq))"
    and "intermediateTarget lvl wc < int (length (bucket intermediate wq))"
    and "beginnerTarget lvl wc < int (length (bucket beginner wq))"
  using assms by (cases lvl; simp add: abundant_week_def)+

lemma abundantD:
  assumes "abundant qs cnt" and "n < length (weeks_of qs)"
  shows "abundant_week (week_group qs (weeks_of qs ! n)) (week_quota qs cnt n)"
  using assms by (simp add: abundant_def list_all_iff)


lemma week_length_abundant:
  assumes "abundant_week wq wc"
  shows "int (length (fst (stratify rnd lvl wq wc k))) = max 0 wc"
proof -
  let ?ic = "intermediateCount lvl (filter (\<lambda>q. difficulty q = intermediate) wq) wc"
  let ?ac = "advancedCount lvl (filter (\<lambda>q. difficulty q = advanced) wq) wc"
  have ac: "?ac = advancedTarget lvl wc"
    using abundant_weekD(1)[OF assms, of lvl]
    by (simp add: advancedCount_def advancedTarget_def bucket_def)
  have ic: "?ic = intermediateTarget lvl wc"
    using abundant_weekD(2)[OF assms, of lvl]
    by (simp add: intermediateCount_def intermediateTarget_def bucket_def)
  have bc: "beginnerCount wc ?ic ?ac = beginnerTarget lvl wc"
    unfolding ac ic by (simp add: beginnerCount_def beginnerTarget_def)
  have len: "int (length (fst (stratify rnd lvl wq wc k)))
               = beginnerTarget lvl wc + intermediateTarget lvl wc + advancedTarget lvl wc"
    unfolding stratify_length bc unfolding ac ic
    using abundant_weekD(3)[OF assms, of lvl] by (simp add: bucket_def)
  show ?thesis
  proof (cases "0 \<le> wc")
    case True
    have "advancedTarget lvl wc + intermediateTarget lvl wc \<le> wc"
      using targets_le_quota[OF True, of lvl]
      by (simp add: advancedTarget_def intermediateTarget_def)
    then show ?thesis unfolding len using True by (simp add: beginnerTarget_def)
  next
    case False
    then have "wc \<le> 0" by simp
    from targets_nonpos[OF this, of lvl] show ?thesis
      unfolding len using False
      by (simp add: beginnerTarget_def advancedTarget_def intermediateTarget_def)
  qed
qed

lemma weekSelect_abundant:
  assumes "abundant_week wq wc"
  shows "fst (weekSelect rnd lvl wq wc k) = fst (stratify rnd lvl wq wc k)"
  unfolding weekSelect_eq fill_remaining_fst week_length_abundant[OF assms] by simp

lemma weekSelect_abundant_advanced:
  assumes "unit_draws rnd" and "abundant_week wq wc"
  shows "int (length (bucket advanced (fst (weekSelect rnd lvl wq wc k)))) = advancedTarget lvl wc"
  unfolding weekSelect_abundant[OF assms(2)] stratify_buckets(1)[OF assms(1)]
  using abundant_weekD(1)[OF assms(2), of lvl]
  by (simp add: advancedCount_def advancedTarget_def)

lemma bucket_length_mset:
  assumes "mset xs = mset ys"
  shows "length (bucket d xs) = length (bucket d ys)"
proof -
  have "mset (bucket d xs) = mset (bucket d ys)"
    unfolding bucket_def mset_filter assms ..
  then show ?thesis by (rule mset_eq_length)
qed

lemma run_abundant:
  assumes "unit_draws rnd" and "abundant qs cnt"
  shows "\<exists>res k. sample_run rnd qs cnt lvl = Inr (res, k)
           \<and> int (length (bucket advanced res))
               = (\<Sum>i<length (weeks_of qs). advancedTarget lvl (week_quota qs cnt i))
           \<and> int (length res) = (\<Sum>i<length (weeks_of qs). max 0 (week_quota qs cnt i))"
proof (cases "qs = []")
  case True
  then show ?thesis using weeks_of_Nil_iff[of qs] by (simp add: sample_run_Nil bucket_def)
next
  case False
  let ?W = "weeks_of qs"
  let ?I = "\<lambda>n s (j :: nat).
      int (length (bucket advanced s)) = (\<Sum>i<n. advancedTarget lvl (week_quota qs cnt i))
    \<and> int (length s) = (\<Sum>i<n. max 0 (week_quota qs cnt i))"
  have "\<exists>selected k. ?I (length ?W) selected k
           \<and> sample_run rnd qs cnt lvl =
               Inr (shuffleArray rnd (fst (fill_remaining rnd qs selected cnt k))
                      (snd (fill_remaining rnd qs selected cnt k)))"
  proof (rule sample_run_rule[OF False])
    show "?I 0 [] 0" by (simp add: bucket_def)
  next
    fix n s j
    assume n: "n < length ?W" and inv: "?I n s j"
    let ?ws = "fst (weekSelect rnd lvl (week_group qs (?W ! n)) (week_quota qs cnt n) j)"
    note ab = abundantD[OF assms(2) n]
    have "int (length (bucket advanced ?ws)) = advancedTarget lvl (week_quota qs cnt n)"
      by (rule weekSelect_abundant_advanced[OF assms(1) ab])
    moreover have "int (length ?ws) = max 0 (week_quota qs cnt n)"
      unfolding weekSelect_abundant[OF ab] by (rule week_length_abundant[OF ab])
    ultimately show "?I (Suc n) (s @ ?ws)
        (snd (weekSelect rnd lvl (week_group qs (?W ! n)) (week_quota qs cnt n) j))"
      using inv by (simp add: bucket_append)
  qed
  then obtain selected k where sel:
    "int (length (bucket advanced selected))
       = (\<Sum>i<length ?W. advancedTarget lvl (week_quota qs cnt i))"
    "int (length selected) = (\<Sum>i<length ?W. max 0 (week_quota qs cnt i))"
    "sample_run rnd qs cnt lvl =
               Inr (shuffleArray rnd (fst (fill_remaining rnd qs selected cnt k))
                      (snd (fill_remaining rnd qs selected cnt k)))"
    by blast
  have full: "\<not> int (length selected) < cnt"
  proof (cases "0 \<le> cnt")
    case True
    have "max 0 (week_quota qs cnt i) = week_quota qs cnt i" for i
      unfolding week_quota_def using quota_nonneg[OF True] by simp
    then show ?thesis using sel(2) quota_sum_run[OF True False] by simp
  next
    case False
    then show ?thesis by simp
  qed
  then have f: "fill_remaining rnd qs selected cnt k = (selected, k)"
    by (simp add: fill_remaining_def)
  let ?r = "shuffleArray rnd selected k"
  have m: "mset (fst ?r) = mset selected" by (rule shuffleArray_mset[OF assms(1)])
  have "int (length (bucket advanced (fst ?r)))
          = (\<Sum>i<length ?W. advancedTarget lvl (week_quota qs cnt i))"
    using bucket_length_mset[OF m, of advanced] sel(1) by simp
  moreover have "int (length (fst ?r)) = (\<Sum>i<length ?W. max 0 (week_quota qs cnt i))"
    using sel(2) by (simp add: shuffleArray_length)
  ultimately show ?thesis using sel(3) unfolding f by (metis fst_conv snd_conv prod.collapse)
qed

lemma advancedTarget_mono_level: "advancedTarget entry wc \<le> advancedTarget experienced wc"
proof (cases "0 \<le> wc")
  case False
  then have "wc \<le> 0" by simp
  from targets_nonpos(1)[OF this] show ?thesis by (simp add: advancedTarget_def)
next
  case True
  have "(wc + 5) div 10 \<le> (wc + 1) div 2"
  proof (cases "wc = 0")
    case True
    then show ?thesis by simp
  next
    case False
    then have "1 \<le> wc" using True by simp
    then show ?thesis
      using div_bounds(1)[of 10 "wc + 5"] div_bounds(2)[of 2 "wc + 1"] by linarith
  qed
  then show ?thesis unfolding advancedTarget_def advanced_round by simp
qed

lemma advanced_round_mono_level:
  assumes "0 \<le> wc"
  shows "Math_round (of_int wc * advancedRatio entry)
           \<le> Math_round (of_int wc * advancedRatio experienced)"
proof -
  have "(wc + 5) div 10 \<le> (wc + 1) div 2"
  proof (cases "wc = 0")
    case True
    then show ?thesis by simp
  next
    case False
    then have "1 \<le> wc" using assms by simp
    then show ?thesis
      using div_bounds(1)[of 10 "wc + 5"] div_bounds(2)[of 2 "wc + 1"] by linarith
  qed
  then show ?thesis unfolding advanced_round by simp
qed

lemma clamped_quota_sum:
  assumes "0 \<le> cnt" and "qs \<noteq> []"
  shows "(\<Sum>i<length (weeks_of qs). max 0 (week_quota qs cnt i)) = cnt"
proof -
  have "max 0 (week_quota qs cnt i) = week_quota qs cnt i" for i
    unfolding week_quota_def using quota_nonneg[OF assms(1)] by simp
  then show ?thesis using quota_sum_run[OF assms] by simp
qed

lemma clamped_quota_sum_nonpos:
  assumes "cnt \<le> 0"
  shows "(\<Sum>i<length (weeks_of qs). max 0 (week_quota qs cnt i)) = 0"
proof -
  have "max 0 (week_quota qs cnt i) = 0" for i
    unfolding week_quota_def using quota_nonpos[OF assms] by simp
  then show ?thesis by simp
qed

subsection \<open>the draws a run consumes\<close>

lemma stratify_cong:
  assumes "\<And>n. k \<le> n \<Longrightarrow> n < snd (stratify rnd lvl wq wc k) \<Longrightarrow> rnd' n = rnd n"
  shows "stratify rnd' lvl wq wc k = stratify rnd lvl wq wc k"
proof -
  let ?B = "filter (\<lambda>q. difficulty q = beginner) wq"
  let ?I = "filter (\<lambda>q. difficulty q = intermediate) wq"
  let ?A = "filter (\<lambda>q. difficulty q = advanced) wq"
  have e1: "shuffleArray rnd' ?B k = shuffleArray rnd ?B k"
    by (rule shuffleArray_cong) (use assms in \<open>simp add: stratify_snd\<close>)
  have e2: "shuffleArray rnd' ?I (k + (length ?B - 1)) = shuffleArray rnd ?I (k + (length ?B - 1))"
    by (rule shuffleArray_cong) (use assms in \<open>simp add: stratify_snd\<close>)
  have e3: "shuffleArray rnd' ?A (k + (length ?B - 1) + (length ?I - 1))
              = shuffleArray rnd ?A (k + (length ?B - 1) + (length ?I - 1))"
    by (rule shuffleArray_cong) (use assms in \<open>simp add: stratify_snd\<close>)
  show ?thesis
    unfolding stratify_def Let_def split_beta shuffleArray_counter e1 e2 e3 ..
qed

lemma fill_remaining_cong:
  assumes "\<And>m. k \<le> m \<Longrightarrow> m < snd (fill_remaining rnd pool sel n k) \<Longrightarrow> rnd' m = rnd m"
  shows "fill_remaining rnd' pool sel n k = fill_remaining rnd pool sel n k"
proof (cases "int (length sel) < n")
  case True
  have "shuffleArray rnd' (filter (\<lambda>q. id_q q \<notin> set (map id_q sel)) pool) k
          = shuffleArray rnd (filter (\<lambda>q. id_q q \<notin> set (map id_q sel)) pool) k"
    by (rule shuffleArray_cong) (use assms True in \<open>simp add: fill_remaining_snd\<close>)
  then show ?thesis by (simp add: fill_remaining_def)
next
  case False
  then show ?thesis by (simp add: fill_remaining_def)
qed

lemma stratify_counter_mono: "k \<le> snd (stratify rnd lvl wq wc k)"
  by (simp add: stratify_snd)

lemma fill_remaining_counter_mono: "k \<le> snd (fill_remaining rnd pool sel n k)"
  by (simp add: fill_remaining_snd)

lemma weekSelect_counter_mono: "k \<le> snd (weekSelect rnd lvl wq wc k)"
  unfolding weekSelect_eq
  using stratify_counter_mono[of k rnd lvl wq wc]
    fill_remaining_counter_mono[of "snd (stratify rnd lvl wq wc k)" rnd wq
      "fst (stratify rnd lvl wq wc k)" wc]
  by (rule order_trans)

lemma weekSelect_cong:
  assumes "\<And>n. k \<le> n \<Longrightarrow> n < snd (weekSelect rnd lvl wq wc k) \<Longrightarrow> rnd' n = rnd n"
  shows "weekSelect rnd' lvl wq wc k = weekSelect rnd lvl wq wc k"
proof -
  let ?s = "stratify rnd lvl wq wc k"
  have up: "snd ?s \<le> snd (weekSelect rnd lvl wq wc k)"
    unfolding weekSelect_eq by (rule fill_remaining_counter_mono)
  have s: "stratify rnd' lvl wq wc k = ?s"
    by (rule stratify_cong) (use assms up in force)
  have "fill_remaining rnd' wq (fst ?s) wc (snd ?s) = fill_remaining rnd wq (fst ?s) wc (snd ?s)"
  proof (rule fill_remaining_cong)
    fix m
    assume "snd ?s \<le> m" and "m < snd (fill_remaining rnd wq (fst ?s) wc (snd ?s))"
    then show "rnd' m = rnd m"
      using assms[of m] stratify_counter_mono[of k rnd lvl wq wc] by (simp add: weekSelect_eq)
  qed
  then show ?thesis unfolding weekSelect_eq s .
qed

lemma weeks_forEach_counter_mono:
  "weeks_forEach rnd byWeek lvl pw rm ws i sel k = Inr (res, k') \<Longrightarrow> k \<le> k'"
proof (induction ws arbitrary: i sel k)
  case Nil
  then show ?case by simp
next
  case (Cons w rest)
  from Cons.prems obtain wq where wq: "map_of byWeek w = Some wq"
    by (cases "map_of byWeek w") simp_all
  let ?r = "weekSelect rnd lvl wq (weekCount pw rm i) k"
  have "weeks_forEach rnd byWeek lvl pw rm rest (Suc i) (sel @ fst ?r) (snd ?r) = Inr (res, k')"
    using Cons.prems wq by (simp add: split_beta)
  then have "snd ?r \<le> k'" by (rule Cons.IH)
  then show ?case using weekSelect_counter_mono[of k rnd lvl wq "weekCount pw rm i"] by simp
qed

lemma weeks_forEach_cong:
  assumes "weeks_forEach rnd byWeek lvl pw rm ws i sel k = Inr (res, k')"
    and "\<And>n. k \<le> n \<Longrightarrow> n < k' \<Longrightarrow> rnd' n = rnd n"
  shows "weeks_forEach rnd' byWeek lvl pw rm ws i sel k = Inr (res, k')"
  using assms
proof (induction ws arbitrary: i sel k)
  case Nil
  then show ?case by simp
next
  case (Cons w rest)
  from Cons.prems(1) obtain wq where wq: "map_of byWeek w = Some wq"
    by (cases "map_of byWeek w") simp_all
  let ?r = "weekSelect rnd lvl wq (weekCount pw rm i) k"
  have rest: "weeks_forEach rnd byWeek lvl pw rm rest (Suc i) (sel @ fst ?r) (snd ?r)
                = Inr (res, k')"
    using Cons.prems(1) wq by (simp add: split_beta)
  have le: "snd ?r \<le> k'" using rest by (rule weeks_forEach_counter_mono)
  have first: "weekSelect rnd' lvl wq (weekCount pw rm i) k = ?r"
    by (rule weekSelect_cong) (use Cons.prems(2) le in force)
  have "weeks_forEach rnd' byWeek lvl pw rm rest (Suc i) (sel @ fst ?r) (snd ?r) = Inr (res, k')"
  proof (rule Cons.IH[OF rest])
    fix n
    assume "snd ?r \<le> n" and "n < k'"
    then show "rnd' n = rnd n"
      using Cons.prems(2)[of n] weekSelect_counter_mono[of k rnd lvl wq "weekCount pw rm i"]
      by simp
  qed
  then show ?case using wq first by (simp add: split_beta)
qed

lemma sample_run_cong:
  assumes "sample_run rnd qs cnt lvl = Inr (res, n)"
    and "\<And>k. k < n \<Longrightarrow> rnd' k = rnd k"
  shows "sample_run rnd' qs cnt lvl = Inr (res, n)"
proof (cases "qs = []")
  case True
  then show ?thesis using assms(1) by (simp add: sample_run_Nil)
next
  case False
  obtain byWeek where b: "groupByWeek qs [] = Inr byWeek"
    using groupByWeek_empty_map[of qs] by blast
  have w: "weeks_of qs = sorted_weeks byWeek" using b by (simp add: weeks_of_def)
  have ne: "length (sorted_weeks byWeek) \<noteq> 0"
    using weeks_of_Nil_iff[of qs] False w by simp
  let ?loop = "\<lambda>r. weeks_forEach r byWeek lvl (perWeek cnt (length (sorted_weeks byWeek)))
                  (remainder cnt (length (sorted_weeks byWeek))) (sorted_weeks byWeek) 0 [] 0"
  from assms(1) obtain selected k where l: "?loop rnd = Inr (selected, k)"
    using b ne by (cases "?loop rnd") (auto simp: sample_run_def Let_def)
  let ?f = "fill_remaining rnd qs selected cnt k"
  have r: "shuffleArray rnd (fst ?f) (snd ?f) = (res, n)"
    using assms(1) b ne l by (simp add: sample_run_def Let_def split_beta)
  have n: "n = snd ?f + (length (fst ?f) - 1)"
    using arg_cong[OF r, of snd] by (simp add: shuffleArray_counter)
  have kf: "k \<le> snd ?f" by (rule fill_remaining_counter_mono)
  have l': "?loop rnd' = Inr (selected, k)"
    by (rule weeks_forEach_cong[OF l]) (use assms(2) n kf in simp)
  have f': "fill_remaining rnd' qs selected cnt k = ?f"
    by (rule fill_remaining_cong) (use assms(2) n in simp)
  have "shuffleArray rnd' (fst ?f) (snd ?f) = shuffleArray rnd (fst ?f) (snd ?f)"
    by (rule shuffleArray_cong) (use assms(2) n in simp)
  then show ?thesis
    using b ne l' f' r by (simp add: sample_run_def Let_def split_beta)
qed

subsection \<open>the store\<close>

lemma shuffle_loop_st_eq:
  "a < length h \<Longrightarrow>
   shuffle_loop_st rnd i a h k =
     (h[a := fst (shuffle_loop rnd i (h ! a) k)], snd (shuffle_loop rnd i (h ! a) k))"
proof (induction i arbitrary: h k)
  case 0
  then show ?case by simp
next
  case (Suc i)
  let ?j = "nat \<lfloor>rnd k * of_nat (Suc i + 1)\<rfloor>"
  let ?v = "(h ! a)[Suc i := h ! a ! ?j, ?j := h ! a ! Suc i]"
  have "shuffle_loop_st rnd i a (h[a := ?v]) (Suc k) =
          ((h[a := ?v])[a := fst (shuffle_loop rnd i ((h[a := ?v]) ! a) (Suc k))],
           snd (shuffle_loop rnd i ((h[a := ?v]) ! a) (Suc k)))"
    by (rule Suc.IH) (use Suc.prems in simp)
  then show ?case using Suc.prems by (simp add: Let_def)
qed

lemma shuffleArray_st_eq:
  "shuffleArray_st rnd a h k =
     (length h, h @ [fst (shuffleArray rnd (h ! a) k)], snd (shuffleArray rnd (h ! a) k))"
proof -
  have "shuffle_loop_st rnd (length (h ! a) - 1) (length h) (h @ [h ! a]) k =
          ((h @ [h ! a])[length h := fst (shuffle_loop rnd (length (h ! a) - 1)
                                            ((h @ [h ! a]) ! length h) k)],
           snd (shuffle_loop rnd (length (h ! a) - 1) ((h @ [h ! a]) ! length h) k))"
    by (rule shuffle_loop_st_eq) simp
  then show ?thesis
    by (simp add: shuffleArray_st_def alloc_def shuffleArray_def)
qed

lemma fill_remaining_st_eq:
  assumes "pool < length h" and "selected < length h"
  shows "\<exists>ext. fill_remaining_st rnd pool selected n h k =
           (h[selected := fst (fill_remaining rnd (h ! pool) (h ! selected) n k)] @ ext,
            snd (fill_remaining rnd (h ! pool) (h ! selected) n k))"
proof (cases "int (length (h ! selected)) < n")
  case False
  then have "fill_remaining_st rnd pool selected n h k =
           (h[selected := fst (fill_remaining rnd (h ! pool) (h ! selected) n k)] @ [],
            snd (fill_remaining rnd (h ! pool) (h ! selected) n k))"
    by (simp add: fill_remaining_st_def fill_remaining_def)
  then show ?thesis by blast
next
  case True
  then show ?thesis
    using assms
    by (simp add: fill_remaining_st_def fill_remaining_def filter_st_def slice0_st_def
        alloc_def push_all_def shuffleArray_st_eq nth_append list_update_append split_beta)
qed

lemma take_shuffled_st_eq:
  assumes "b < length h" and "ws < length h"
  shows "take_shuffled_st rnd b c ws h k =
           (h[ws := h ! ws @ slice0 (fst (shuffleArray rnd (h ! b) k)) (min (int (length (h ! b))) c)]
              @ [fst (shuffleArray rnd (h ! b) k),
                 slice0 (fst (shuffleArray rnd (h ! b) k)) (min (int (length (h ! b))) c)],
            snd (shuffleArray rnd (h ! b) k))"
  using assms
  by (simp add: take_shuffled_st_def shuffleArray_st_eq slice0_st_def alloc_def push_all_def
      nth_append list_update_append)

lemma week_arrays_nth:
  "(h @ B # I # A # W # ext) ! length h = B"
  "(h @ B # I # A # W # ext) ! Suc (length h) = I"
  "(h @ B # I # A # W # ext) ! Suc (Suc (length h)) = A"
  "(h @ B # I # A # W # ext) ! Suc (Suc (Suc (length h))) = W"
  by (simp_all add: nth_append)

lemma week_arrays_update:
  "(h @ B # I # A # W # ext)[Suc (Suc (Suc (length h))) := W'] = h @ B # I # A # W' # ext"
  by (simp add: list_update_append)


lemma weekSelect_st_spec:
  assumes "wqa < length h"
  shows "\<exists>ext. weekSelect_st rnd lvl wqa wc h k =
           (Suc (Suc (Suc (length h))), h @ ext, snd (weekSelect rnd lvl (h ! wqa) wc k))
         \<and> Suc (Suc (Suc (length h))) < length (h @ ext)
         \<and> (h @ ext) ! Suc (Suc (Suc (length h))) = fst (weekSelect rnd lvl (h ! wqa) wc k)"
proof -
  define B where "B = filter (\<lambda>q. difficulty q = beginner) (h ! wqa)"
  define I where "I = filter (\<lambda>q. difficulty q = intermediate) (h ! wqa)"
  define A where "A = filter (\<lambda>q. difficulty q = advanced) (h ! wqa)"
  define ac where "ac = advancedCount lvl A wc"
  define ic where "ic = intermediateCount lvl I wc"
  define bc where "bc = beginnerCount wc ic ac"
  define sb where "sb = shuffleArray rnd B k"
  define si where "si = shuffleArray rnd I (snd sb)"
  define sa where "sa = shuffleArray rnd A (snd si)"
  define P1 where "P1 = slice0 (fst sb) (min (int (length B)) bc)"
  define P2 where "P2 = slice0 (fst si) (min (int (length I)) ic)"
  define P3 where "P3 = slice0 (fst sa) (min (int (length A)) ac)"
  let ?ws = "Suc (Suc (Suc (length h)))"
  have t1: "take_shuffled_st rnd (length h) bc ?ws (h @ B # I # A # [] # []) k =
              (h @ B # I # A # P1 # [fst sb, P1], snd sb)"
    by (simp add: take_shuffled_st_eq week_arrays_nth week_arrays_update sb_def P1_def)
  have t2: "take_shuffled_st rnd (Suc (length h)) ic ?ws (h @ B # I # A # P1 # [fst sb, P1]) (snd sb) =
              (h @ B # I # A # (P1 @ P2) # [fst sb, P1, fst si, P2], snd si)"
    by (simp add: take_shuffled_st_eq week_arrays_nth week_arrays_update si_def P2_def)
  have t3: "take_shuffled_st rnd (Suc (Suc (length h))) ac ?ws
              (h @ B # I # A # (P1 @ P2) # [fst sb, P1, fst si, P2]) (snd si) =
              (h @ B # I # A # (P1 @ P2 @ P3) # [fst sb, P1, fst si, P2, fst sa, P3], snd sa)"
    by (simp add: take_shuffled_st_eq week_arrays_nth week_arrays_update sa_def P3_def)
  let ?h7 = "h @ B # I # A # (P1 @ P2 @ P3) # [fst sb, P1, fst si, P2, fst sa, P3]"
  have st: "stratify rnd lvl (h ! wqa) wc k = (P1 @ P2 @ P3, snd sa)"
    unfolding stratify_def Let_def split_beta
    by (simp add: B_def I_def A_def ac_def ic_def bc_def sb_def si_def sa_def P1_def P2_def P3_def)
  have pure: "weekSelect rnd lvl (h ! wqa) wc k =
                fill_remaining rnd (h ! wqa) (P1 @ P2 @ P3) wc (snd sa)"
    unfolding weekSelect_eq st by simp
  from fill_remaining_st_eq[of wqa ?h7 ?ws rnd wc "snd sa"] assms
  obtain ext where f:
    "fill_remaining_st rnd wqa ?ws wc ?h7 (snd sa) =
       (?h7[?ws := fst (fill_remaining rnd (?h7 ! wqa) (?h7 ! ?ws) wc (snd sa))] @ ext,
        snd (fill_remaining rnd (?h7 ! wqa) (?h7 ! ?ws) wc (snd sa)))"
    by auto
  have r7: "?h7 ! wqa = h ! wqa" "?h7 ! ?ws = P1 @ P2 @ P3"
    using assms by (simp_all add: nth_append)
  let ?W = "fst (weekSelect rnd lvl (h ! wqa) wc k)"
  have f': "fill_remaining_st rnd wqa ?ws wc ?h7 (snd sa) =
       (h @ (B # I # A # ?W # [fst sb, P1, fst si, P2, fst sa, P3] @ ext),
        snd (weekSelect rnd lvl (h ! wqa) wc k))"
    unfolding f r7 pure by (simp add: week_arrays_update)
  have run: "weekSelect_st rnd lvl wqa wc h k =
      (?ws, h @ (B # I # A # ?W # [fst sb, P1, fst si, P2, fst sa, P3] @ ext),
       snd (weekSelect rnd lvl (h ! wqa) wc k))"
    unfolding weekSelect_st_def filter_st_def alloc_def
    using assms
    by (simp add: nth_append t1[unfolded B_def I_def A_def bc_def ic_def ac_def]
        t2[unfolded B_def I_def A_def bc_def ic_def ac_def]
        t3[unfolded B_def I_def A_def bc_def ic_def ac_def]
        f'[unfolded B_def I_def A_def bc_def ic_def ac_def] B_def I_def A_def)
  show ?thesis
    by (rule exI[of _ "B # I # A # ?W # [fst sb, P1, fst si, P2, fst sa, P3] @ ext"])
      (simp add: run nth_append)
qed

lemma group_step_st_spec:
  assumes "represents n0 h bst byWeek" and "n0 \<le> length h"
  shows "\<exists>bst' h' byWeek'. group_step_st bst q h = Inr (bst', h')
           \<and> group_step byWeek q = Inr byWeek'
           \<and> represents n0 h' bst' byWeek'
           \<and> take n0 h' = take n0 h \<and> length h \<le> length h'"
proof (cases "map_of bst (weekNum q)")
  case None
  let ?w = "weekNum q"
  have pn: "map_of byWeek ?w = None" using assms(1) None by (simp add: represents_def)
  have st: "group_step_st bst q h = Inr (AList.update ?w (length h) bst, h @ [[q]])"
    using None by (simp add: group_step_st_def alloc_def push_all_def update_conv')
  have pu: "group_step byWeek q = Inr (AList.update ?w [q] byWeek)"
    using pn by (simp add: group_step_Inr)
  have keys: "map fst (AList.update ?w (length h) bst) = map fst (AList.update ?w [q] byWeek)"
    using assms(1) by (simp add: represents_def update_keys)
  have rep: "represents n0 (h @ [[q]]) (AList.update ?w (length h) bst) (AList.update ?w [q] byWeek)"
    unfolding represents_def
  proof (intro conjI allI impI)
    show "map fst (AList.update ?w (length h) bst) = map fst (AList.update ?w [q] byWeek)"
      by (rule keys)
    show "map_of (AList.update ?w [q] byWeek) w =
            map_option (\<lambda>a. (h @ [[q]]) ! a) (map_of (AList.update ?w (length h) bst) w)" for w
    proof (cases "w = ?w")
      case True
      then show ?thesis by (simp add: update_conv')
    next
      case False
      show ?thesis
      proof (cases "map_of bst w")
        case None
        then show ?thesis using False assms(1) by (simp add: update_conv' represents_def)
      next
        case (Some a)
        then have "a < length h" using assms(1) by (simp add: represents_def)
        then show ?thesis using False Some assms(1)
          by (simp add: update_conv' represents_def nth_append)
      qed
    qed
    show "n0 \<le> a" if "map_of (AList.update ?w (length h) bst) w = Some a" for w a
      using that assms by (auto simp: update_conv' represents_def split: if_splits)
    show "a < length (h @ [[q]])" if "map_of (AList.update ?w (length h) bst) w = Some a" for w a
      using that assms(1) by (auto simp: update_conv' represents_def less_Suc_eq split: if_splits)
    show "w = w'" if "map_of (AList.update ?w (length h) bst) w = Some a"
      "map_of (AList.update ?w (length h) bst) w' = Some a" for w w' a
    proof -
      have old: "map_of bst v = Some b \<Longrightarrow> b < length h" for v b
        using assms(1) by (simp add: represents_def)
      show ?thesis
        using that assms(1) old
        by (auto simp: update_conv' represents_def split: if_splits)
    qed
  qed
  show ?thesis using st pu rep assms(2) by simp
next
  case (Some a)
  let ?w = "weekNum q"
  have a: "n0 \<le> a" "a < length h" and g: "map_of byWeek ?w = Some (h ! a)"
    using assms(1) Some by (simp_all add: represents_def)
  have st: "group_step_st bst q h = Inr (bst, h[a := h ! a @ [q]])"
    using Some by (simp add: group_step_st_def push_all_def)
  have pu: "group_step byWeek q = Inr (AList.update ?w (h ! a @ [q]) byWeek)"
    using g by (simp add: group_step_Inr)
  have inkeys: "?w \<in> set (map fst byWeek)"
    using g by (metis map_of_eq_None_iff option.distinct(1) set_map)
  have rep: "represents n0 (h[a := h ! a @ [q]]) bst (AList.update ?w (h ! a @ [q]) byWeek)"
    unfolding represents_def
  proof (intro conjI allI impI)
    show "map fst bst = map fst (AList.update ?w (h ! a @ [q]) byWeek)"
      using assms(1) inkeys by (simp add: represents_def update_keys)
    show "map_of (AList.update ?w (h ! a @ [q]) byWeek) w =
            map_option (\<lambda>b. h[a := h ! a @ [q]] ! b) (map_of bst w)" for w
    proof (cases "w = ?w")
      case True
      then show ?thesis using Some a by (simp add: update_conv')
    next
      case False
      show ?thesis
      proof (cases "map_of bst w")
        case None
        then show ?thesis using False assms(1) by (simp add: update_conv' represents_def)
      next
        case (Some b)
        then have "b \<noteq> a" using \<open>map_of bst ?w = Some a\<close> False assms(1)
          unfolding represents_def by blast
        then show ?thesis using False Some assms(1)
          by (simp add: update_conv' represents_def)
      qed
    qed
    show "n0 \<le> b" if "map_of bst w = Some b" for w b
      using that assms(1) by (simp add: represents_def)
    show "b < length (h[a := h ! a @ [q]])" if "map_of bst w = Some b" for w b
      using that assms(1) by (simp add: represents_def)
    show "w = w'" if "map_of bst w = Some b" "map_of bst w' = Some b" for w w' b
      using that assms(1) unfolding represents_def by blast
  qed
  show ?thesis using st pu rep a by simp
qed


lemma groupByWeek_st_spec:
  assumes "represents n0 h bst byWeek" and "n0 \<le> length h" and "questions < n0"
    and "i + n \<le> length (h ! questions)"
  shows "\<exists>bst' h' byWeek'. groupByWeek_st questions i n bst h = Inr (bst', h')
           \<and> groupByWeek (take n (drop i (h ! questions))) byWeek = Inr byWeek'
           \<and> represents n0 h' bst' byWeek'
           \<and> take n0 h' = take n0 h \<and> length h \<le> length h'"
  using assms
proof (induction n arbitrary: i h bst byWeek)
  case 0
  then show ?case by simp
next
  case (Suc n)
  let ?q = "h ! questions ! i"
  from group_step_st_spec[OF Suc.prems(1,2), of ?q] obtain bst1 h1 byWeek1 where s:
    "group_step_st bst ?q h = Inr (bst1, h1)" "group_step byWeek ?q = Inr byWeek1"
    "represents n0 h1 bst1 byWeek1" "take n0 h1 = take n0 h" "length h \<le> length h1"
    by blast
  have same: "h1 ! questions = h ! questions"
    using s(4) Suc.prems(3) by (metis nth_take)
  have "\<exists>bst' h' byWeek'. groupByWeek_st questions (Suc i) n bst1 h1 = Inr (bst', h')
           \<and> groupByWeek (take n (drop (Suc i) (h1 ! questions))) byWeek1 = Inr byWeek'
           \<and> represents n0 h' bst' byWeek'
           \<and> take n0 h' = take n0 h1 \<and> length h1 \<le> length h'"
    by (rule Suc.IH[OF s(3)]) (use Suc.prems s(5) same in simp_all)
  then obtain bst' h' byWeek' where r:
    "groupByWeek_st questions (Suc i) n bst1 h1 = Inr (bst', h')"
    "groupByWeek (take n (drop (Suc i) (h ! questions))) byWeek1 = Inr byWeek'"
    "represents n0 h' bst' byWeek'" "take n0 h' = take n0 h1" "length h1 \<le> length h'"
    unfolding same by blast
  have "i < length (h ! questions)" using Suc.prems(4) by simp
  then have "take (Suc n) (drop i (h ! questions)) = ?q # take n (drop (Suc i) (h ! questions))"
    by (simp add: Cons_nth_drop_Suc[symmetric])
  then have "groupByWeek (take (Suc n) (drop i (h ! questions))) byWeek = Inr byWeek'"
    using s(2) r(2) by simp
  moreover have "groupByWeek_st questions i (Suc n) bst h = Inr (bst', h')"
    using s(1) r(1) by simp
  ultimately show ?case using r(3,4,5) s(4,5) by auto
qed

lemma weeks_forEach_st_spec:
  assumes "selected < length h"
    and "\<And>w. map_of byWeek w = map_option (\<lambda>a. h ! a) (map_of bst w)"
    and "\<And>w a. map_of bst w = Some a \<Longrightarrow> a < length h \<and> a \<noteq> selected"
    and "weeks_forEach rnd byWeek lvl pw rm ws i (h ! selected) k = Inr (sel', k')"
  shows "\<exists>ext. weeks_forEach_st rnd bst lvl pw rm ws i selected h k
                 = Inr (h[selected := sel'] @ ext, k')"
  using assms
proof (induction ws arbitrary: i h k)
  case Nil
  then have "weeks_forEach_st rnd bst lvl pw rm [] i selected h k
               = Inr (h[selected := sel'] @ [], k')"
    by auto
  then show ?case by blast
next
  case (Cons w rest)
  from Cons.prems(4) obtain wq where wq: "map_of byWeek w = Some wq"
    by (cases "map_of byWeek w") simp_all
  with Cons.prems(2)[of w] obtain a where a: "map_of bst w = Some a" "wq = h ! a"
    by (cases "map_of bst w") simp_all
  have al: "a < length h" "a \<noteq> selected" using Cons.prems(3)[OF a(1)] by simp_all
  let ?wc = "weekCount pw rm i"
  let ?W = "fst (weekSelect rnd lvl (h ! a) ?wc k)"
  let ?k1 = "snd (weekSelect rnd lvl (h ! a) ?wc k)"
  let ?ws = "Suc (Suc (Suc (length h)))"
  from weekSelect_st_spec[OF al(1), of rnd lvl ?wc k] obtain ext1 where e1:
    "weekSelect_st rnd lvl a ?wc h k = (?ws, h @ ext1, ?k1)"
    "?ws < length (h @ ext1)" "(h @ ext1) ! ?ws = ?W"
    by blast
  let ?h2 = "h[selected := h ! selected @ ?W] @ ext1"
  have push: "push_all selected ((h @ ext1) ! ?ws) (h @ ext1) = ?h2"
    using Cons.prems(1) e1(3) by (simp add: push_all_def nth_append list_update_append)
  have pure: "weeks_forEach rnd byWeek lvl pw rm rest (Suc i) (?h2 ! selected) ?k1 = Inr (sel', k')"
    using Cons.prems(4) wq a(2) Cons.prems(1) by (simp add: split_beta nth_append)
  have "\<exists>ext. weeks_forEach_st rnd bst lvl pw rm rest (Suc i) selected ?h2 ?k1
                 = Inr (?h2[selected := sel'] @ ext, k')"
  proof (rule Cons.IH[OF _ _ _ pure])
    show "selected < length ?h2" using Cons.prems(1) by simp
    show "map_of byWeek v = map_option (\<lambda>b. ?h2 ! b) (map_of bst v)" for v
    proof (cases "map_of bst v")
      case None
      then show ?thesis using Cons.prems(2)[of v] by simp
    next
      case (Some b)
      then have "b < length h" "b \<noteq> selected" using Cons.prems(3)[OF Some] by simp_all
      then show ?thesis using Some Cons.prems(2)[of v] by (simp add: nth_append)
    qed
    show "b < length ?h2 \<and> b \<noteq> selected" if "map_of bst v = Some b" for v b
      using Cons.prems(3)[OF that] by simp
  qed
  then obtain ext where r:
    "weeks_forEach_st rnd bst lvl pw rm rest (Suc i) selected ?h2 ?k1
       = Inr (?h2[selected := sel'] @ ext, k')"
    by blast
  have "?h2[selected := sel'] @ ext = h[selected := sel'] @ (ext1 @ ext)"
    using Cons.prems(1) by (simp add: list_update_append)
  then have "weeks_forEach_st rnd bst lvl pw rm (w # rest) i selected h k
               = Inr (h[selected := sel'] @ (ext1 @ ext), k')"
    using a(1) e1(1) push r by simp
  then show ?case by blast
qed

lemma selectRandomQuestions_st_spec:
  assumes "questions < length h"
    and "sample_run rnd (h ! questions) cnt lvl = Inr (res, k)"
  shows "\<exists>result h'. selectRandomQuestions_st rnd questions cnt lvl h = Inr (result, h', k)
           \<and> length h \<le> result \<and> result < length h' \<and> h' ! result = res
           \<and> take (length h) h' = h"
proof -
  have "represents (length h) h [] []" by (simp add: represents_def)
  from groupByWeek_st_spec[OF this, of questions 0 "length (h ! questions)"] assms(1)
  obtain bst h1 byWeek where g:
    "groupByWeek_st questions 0 (length (h ! questions)) [] h = Inr (bst, h1)"
    "groupByWeek (h ! questions) [] = Inr byWeek"
    "represents (length h) h1 bst byWeek" "take (length h) h1 = h" "length h \<le> length h1"
    by auto
  have keys: "map fst bst = map fst byWeek" using g(3) by (simp add: represents_def)
  have q1: "h1 ! questions = h ! questions" using g(4) assms(1) by (metis nth_take)
  let ?weeks = "sort_key ToString (map fst byWeek)"
  show ?thesis
  proof (cases "length ?weeks = 0")
    case True
    then have "sample_run rnd (h ! questions) cnt lvl = Inr ([], 0)"
      using g(2) by (simp add: sample_run_def sorted_weeks_def)
    then have "res = []" "k = 0" using assms(2) by simp_all
    moreover have "selectRandomQuestions_st rnd questions cnt lvl h
                     = Inr (length h1, h1 @ [[]], 0)"
      using True g(1) keys by (simp add: selectRandomQuestions_st_def alloc_def)
    ultimately show ?thesis using g(4,5) by simp
  next
    case False
    let ?pw = "perWeek cnt (length ?weeks)"
    let ?rm = "remainder cnt (length ?weeks)"
    let ?sel = "length h1"
    let ?h2 = "h1 @ [[]]"
    have sr: "sample_run rnd (h ! questions) cnt lvl =
                (case weeks_forEach rnd byWeek lvl ?pw ?rm ?weeks 0 [] 0 of
                   Inl e \<Rightarrow> Inl e
                 | Inr (selected, k) \<Rightarrow>
                     (let (selected', k') = fill_remaining rnd (h ! questions) selected cnt k
                      in Inr (shuffleArray rnd selected' k')))"
      unfolding sample_run_def sorted_weeks_def Let_def g(2) sum.case
      using False by (simp only: if_False)
    from assms(2)[unfolded sr] obtain selected ks where l:
      "weeks_forEach rnd byWeek lvl ?pw ?rm ?weeks 0 [] 0 = Inr (selected, ks)"
      by (cases "weeks_forEach rnd byWeek lvl ?pw ?rm ?weeks 0 [] 0") (simp_all only: sum.case sum.distinct prod.collapse, auto)
    let ?f = "fill_remaining rnd (h ! questions) selected cnt ks"
    have r: "shuffleArray rnd (fst ?f) (snd ?f) = (res, k)"
      using assms(2)[unfolded sr l] by (simp add: split_beta)
    have "\<exists>ext. weeks_forEach_st rnd bst lvl ?pw ?rm ?weeks 0 ?sel ?h2 0
                   = Inr (?h2[?sel := selected] @ ext, ks)"
    proof (rule weeks_forEach_st_spec)
      show "?sel < length ?h2" by simp
      show "map_of byWeek w = map_option (\<lambda>a. ?h2 ! a) (map_of bst w)" for w
      proof (cases "map_of bst w")
        case None
        then show ?thesis using g(3) by (simp add: represents_def)
      next
        case (Some a)
        then have "a < length h1" using g(3) by (simp add: represents_def)
        then show ?thesis using Some g(3) by (simp add: represents_def nth_append)
      qed
      show "a < length ?h2 \<and> a \<noteq> ?sel" if "map_of bst w = Some a" for w a
      proof -
        have "a < length h1" using that g(3) by (simp add: represents_def)
        then show ?thesis by simp
      qed
      show "weeks_forEach rnd byWeek lvl ?pw ?rm ?weeks 0 (?h2 ! ?sel) 0 = Inr (selected, ks)"
        using l by simp
    qed
    then obtain ext where e:
      "weeks_forEach_st rnd bst lvl ?pw ?rm ?weeks 0 ?sel ?h2 0
         = Inr (h1 @ selected # ext, ks)"
      by auto
    let ?h3 = "h1 @ selected # ext"
    have q3: "?h3 ! questions = h ! questions"
      using q1 assms(1) g(5) by (simp add: nth_append)
    from fill_remaining_st_eq[of questions ?h3 ?sel rnd cnt ks] assms(1) g(5)
    obtain ext2 where f:
      "fill_remaining_st rnd questions ?sel cnt ?h3 ks =
         (?h3[?sel := fst (fill_remaining rnd (?h3 ! questions) (?h3 ! ?sel) cnt ks)] @ ext2,
          snd (fill_remaining rnd (?h3 ! questions) (?h3 ! ?sel) cnt ks))"
      by auto
    have f': "fill_remaining_st rnd questions ?sel cnt ?h3 ks
                = (h1 @ fst ?f # ext @ ext2, snd ?f)"
      unfolding f q3 by simp
    let ?h4 = "h1 @ fst ?f # ext @ ext2"
    have "selectRandomQuestions_st rnd questions cnt lvl h
            = Inr (length ?h4, ?h4 @ [res], k)"
      unfolding selectRandomQuestions_st_def g(1) keys Let_def alloc_def sum.case prod.case
      using False e f' r
      by (simp add: shuffleArray_st_eq nth_append del: length_sort)
    moreover have "take (length h) (?h4 @ [res]) = h" using g(4,5) by simp
    moreover have "(?h4 @ [res]) ! length ?h4 = res" by (rule nth_append_length)
    moreover have "length ?h4 < length (?h4 @ [res])" by simp
    moreover have "length h \<le> length ?h4" using g(5) by simp
    ultimately show ?thesis by blast
  qed
qed

section \<open>The claims\<close>

subsection \<open>C1: the length of the result\<close>

text \<open>
  C1. For every pool whose ids are pairwise distinct, every count \<open>\<ge> 0\<close> and either
  level, \<open>selectRandomQuestions\<close> returns (it does not throw), and the sequence it
  returns has length exactly \<open>min(count, pool.length)\<close>: it is \<open>count\<close> when
  \<open>count \<le> pool.length\<close>, \<open>pool.length\<close> when \<open>count > pool.length\<close>, and never more
  than \<open>count\<close>. This holds for every outcome of the random draws.
\<close>

theorem selectRandomQuestions_length:
  assumes "unit_draws rnd" and "distinct (map id_q pool)" and "0 \<le> cnt"
  shows "\<exists>result. selectRandomQuestions rnd pool cnt lvl = Inr result
           \<and> int (length result) = min cnt (int (length pool))
           \<and> (cnt \<le> int (length pool) \<longrightarrow> int (length result) = cnt)
           \<and> (int (length pool) < cnt \<longrightarrow> length result = length pool)
           \<and> int (length result) \<le> cnt"
proof -
  from run_result[OF assms(1), of pool cnt lvl] obtain res k where
    r: "sample_run rnd pool cnt lvl = Inr (res, k)"
       "int (length res) = min cnt (int (length pool))"
    using assms(2,3) by blast
  have "selectRandomQuestions rnd pool cnt lvl = Inr res"
    using r(1) by (rule selectRandomQuestions_eq)
  moreover have "cnt \<le> int (length pool) \<longrightarrow> int (length res) = cnt" using r(2) by simp
  moreover have "int (length pool) < cnt \<longrightarrow> length res = length pool"
    using r(2) by (auto simp: min_def)
  moreover have "int (length res) \<le> cnt" using r(2) by simp
  ultimately show ?thesis using r(2) by blast
qed

theorem selectRandomQuestions_length_witness:
  "unit_draws zero_draws \<and> distinct (map id_q pool_three)
   \<and> (\<exists>result. selectRandomQuestions zero_draws pool_three 2 entry = Inr result
          \<and> length result = 2)
   \<and> (\<exists>result. selectRandomQuestions zero_draws pool_three 5 entry = Inr result
          \<and> length result = 3)"
proof -
  have h1: "unit_draws zero_draws" by (simp add: unit_draws_def zero_draws_def)
  have h2: "distinct (map id_q pool_three)" by (simp add: pool_three_def mk_question_def)
  have l: "length pool_three = 3" by (simp add: pool_three_def)
  show ?thesis
    using h1 h2 l selectRandomQuestions_length[OF h1 h2, of 2 entry]
      selectRandomQuestions_length[OF h1 h2, of 5 entry]
    by auto
qed

subsection \<open>C2: no two results with the same id\<close>

text \<open>
  C2 as stated: for every pool, also one in which two different questions share an id,
  the result never holds two elements with the same id. This fails: the buckets are
  filled by position, not by id. The pool of two beginner questions of week 1 with the
  same id, \<open>count = 2\<close>, level entry, every draw \<open>0\<close>: both are selected.
\<close>

theorem selectRandomQuestions_shared_id_counterexample:
  "selectRandomQuestions zero_draws pool_shared_id 2 entry = Inr pool_shared_id
   \<and> \<not> distinct (map id_q pool_shared_id)"
proof
  show "selectRandomQuestions zero_draws pool_shared_id 2 entry = Inr pool_shared_id"
    by code_simp
  show "\<not> distinct (map id_q pool_shared_id)"
    by (simp add: pool_shared_id_def mk_question_def)
qed

text \<open>
  C2, amended: for every pool whose ids are pairwise distinct, every count and either
  level, the result never holds two elements with the same id.
\<close>

theorem selectRandomQuestions_distinct_ids:
  assumes "unit_draws rnd" and "distinct (map id_q pool)"
  shows "\<exists>result. selectRandomQuestions rnd pool cnt lvl = Inr result
           \<and> distinct (map id_q result)"
proof -
  from run_result[OF assms(1), of pool cnt lvl] obtain res k where
    r: "sample_run rnd pool cnt lvl = Inr (res, k)" "mset res \<subseteq># mset pool"
    by blast
  have "distinct (map id_q res)" using r(2) assms(2) by (rule distinct_map_submset)
  then show ?thesis using selectRandomQuestions_eq[OF r(1)] by blast
qed

theorem selectRandomQuestions_distinct_ids_witness:
  "unit_draws zero_draws \<and> distinct (map id_q pool_three)
   \<and> (\<exists>result. selectRandomQuestions zero_draws pool_three 2 entry = Inr result
          \<and> distinct (map id_q result))"
proof -
  have h1: "unit_draws zero_draws" by (simp add: unit_draws_def zero_draws_def)
  have h2: "distinct (map id_q pool_three)" by (simp add: pool_three_def mk_question_def)
  show ?thesis using h1 h2 selectRandomQuestions_distinct_ids[OF h1 h2, of 2 entry] by simp
qed

subsection \<open>C3: the targets of one week and the size of its selection\<close>

text \<open>
  C3 as stated: for every week group with quota \<open>weekQuota\<close>, the selection of the week
  has length \<open>\<le> weekQuota\<close>. The bound fails for a negative quota, which a negative
  count produces: \<open>Math.max(0, ...)\<close> guards every target, so the selection is empty,
  and \<open>0 > weekQuota\<close>. The pool \<open>pool_three\<close> with \<open>count = -1\<close>: the first week has
  quota \<open>-1\<close> and its selection has length \<open>0\<close>.
\<close>

theorem week_selection_negative_quota_counterexample:
  "week_quota pool_three (- 1) 0 = - 1
   \<and> fst (weekSelect zero_draws entry (week_group pool_three (weeks_of pool_three ! 0))
            (week_quota pool_three (- 1) 0) 0) = []
   \<and> \<not> int (length (fst (weekSelect zero_draws entry
                (week_group pool_three (weeks_of pool_three ! 0))
                (week_quota pool_three (- 1) 0) 0)))
         \<le> week_quota pool_three (- 1) 0"
  by code_simp

text \<open>
  C3, amended: for every week group and every quota, under both ratio profiles, the
  stratification of the week computes the advanced and the intermediate target as the
  rounded product of quota and ratio clamped to \<open>[0, bucket size]\<close>, and the beginner
  target as \<open>max(0, weekQuota - intermediateTarget - advancedTarget)\<close>; the stratified
  pushes take exactly that many advanced and intermediate questions and as many
  beginner questions as the target and the bucket allow; and the selection of the
  week, after its backfill, has length \<open>\<le> max(0, weekQuota)\<close> and
  \<open>\<le> weekQuestions.length\<close>.
\<close>

theorem week_stratification:
  assumes "unit_draws rnd"
  shows "advancedCount lvl (bucket advanced weekQuestions) weekQuota
           = spec_advancedTarget lvl weekQuestions weekQuota
       \<and> intermediateCount lvl (bucket intermediate weekQuestions) weekQuota
           = spec_intermediateTarget lvl weekQuestions weekQuota
       \<and> beginnerCount weekQuota
             (intermediateCount lvl (bucket intermediate weekQuestions) weekQuota)
             (advancedCount lvl (bucket advanced weekQuestions) weekQuota)
           = spec_beginnerTarget lvl weekQuestions weekQuota
       \<and> int (length (bucket advanced (fst (stratify rnd lvl weekQuestions weekQuota k))))
           = spec_advancedTarget lvl weekQuestions weekQuota
       \<and> int (length (bucket intermediate (fst (stratify rnd lvl weekQuestions weekQuota k))))
           = spec_intermediateTarget lvl weekQuestions weekQuota
       \<and> int (length (bucket beginner (fst (stratify rnd lvl weekQuestions weekQuota k))))
           = min (int (length (bucket beginner weekQuestions)))
               (spec_beginnerTarget lvl weekQuestions weekQuota)
       \<and> int (length (fst (weekSelect rnd lvl weekQuestions weekQuota k))) \<le> max 0 weekQuota
       \<and> length (fst (weekSelect rnd lvl weekQuestions weekQuota k)) \<le> length weekQuestions"
proof (intro conjI)
  show "int (length (fst (weekSelect rnd lvl weekQuestions weekQuota k))) \<le> max 0 weekQuota"
  proof (cases "0 \<le> weekQuota")
    case True
    then show ?thesis using weekSelect_length_le[OF True, of rnd lvl weekQuestions k] by simp
  next
    case False
    then have "weekQuota \<le> 0" by simp
    then show ?thesis by (simp add: weekSelect_nonpos)
  qed
  show "length (fst (weekSelect rnd lvl weekQuestions weekQuota k)) \<le> length weekQuestions"
    by (rule weekSelect_length_week[OF assms])
qed (simp_all only: stratify_buckets[OF assms] spec_targets_eq spec_beginnerTarget_def
    beginnerCount_def)

theorem week_stratification_witness:
  "unit_draws zero_draws
   \<and> spec_advancedTarget experienced pool_abundant 3 = 2
   \<and> int (length (bucket advanced (fst (stratify zero_draws experienced pool_abundant 3 0)))) = 2
   \<and> int (length (fst (weekSelect zero_draws experienced pool_abundant 3 0))) \<le> 3
   \<and> length (fst (weekSelect zero_draws experienced pool_abundant 3 0)) \<le> length pool_abundant"
proof -
  have h: "unit_draws zero_draws" by (simp add: unit_draws_def zero_draws_def)
  have t: "spec_advancedTarget experienced pool_abundant 3 = 2" by code_simp
  show ?thesis
    using h t week_stratification[OF h, of experienced pool_abundant 3 0] by simp
qed

subsection \<open>C4: the quotas of the weeks and the order of the weeks\<close>

text \<open>
  C4 states that the week groups are enumerated in ascending order of \<open>weekNumber\<close> and
  that the first \<open>remainder\<close> groups in that order receive \<open>perWeek + 1\<close>. The source
  sorts the keys with \<open>sort()\<close> and no comparison function, which orders numbers by
  their decimal strings: the weeks 1 to 10 are enumerated as 1, 10, 2, ..., 9. For the
  pool with one question in each of the weeks 1 to 10 and \<open>count = 2\<close> (\<open>perWeek = 0\<close>,
  \<open>remainder = 2\<close>) the quota 1 goes to the weeks 1 and 10, not to the weeks 1 and 2,
  and the questions of the weeks 1 and 10 are returned.
\<close>

theorem weeks_sorted_as_strings:
  "weeks_of pool_ten_weeks = [1, 10, 2, 3, 4, 5, 6, 7, 8, 9]
   \<and> perWeek 2 (length (weeks_of pool_ten_weeks)) = 0
   \<and> remainder 2 (length (weeks_of pool_ten_weeks)) = 2
   \<and> map (week_quota pool_ten_weeks 2) [0, 1, 2, 3, 4, 5, 6, 7, 8, 9]
        = [1, 1, 0, 0, 0, 0, 0, 0, 0, 0]
   \<and> selectRandomQuestions zero_draws pool_ten_weeks 2 entry
        = Inr [mk_question ''week10-q1'' ''ten'' beginner (Some 10),
               mk_question ''week1-q1'' ''one'' beginner (Some 1)]"
  by code_simp

text \<open>
  What holds of the quotas for every non-empty pool and every count \<open>\<ge> 0\<close>: \<open>perWeek\<close>
  and \<open>remainder\<close> are quotient and remainder of \<open>count\<close> by the number of weeks, the
  first \<open>remainder\<close> weeks of the array \<open>weeks\<close> receive \<open>perWeek + 1\<close> and the others
  \<open>perWeek\<close>, the quotas add up to \<open>count\<close>, and the array \<open>weeks\<close> holds every week
  of the pool once, in ascending order of the decimal strings.
\<close>

lemma week_quotas:
  assumes "0 \<le> cnt" and "pool \<noteq> []"
  shows "perWeek cnt (length (weeks_of pool)) = cnt div int (length (weeks_of pool))
       \<and> remainder cnt (length (weeks_of pool)) = cnt mod int (length (weeks_of pool))
       \<and> (\<forall>i. week_quota pool cnt i =
               perWeek cnt (length (weeks_of pool))
                 + (if int i < remainder cnt (length (weeks_of pool)) then 1 else 0))
       \<and> (\<Sum>i<length (weeks_of pool). week_quota pool cnt i) = cnt
       \<and> sorted (map ToString (weeks_of pool))
       \<and> distinct (weeks_of pool)
       \<and> set (weeks_of pool) = weekNum ` set pool"
proof -
  obtain byWeek where "groupByWeek pool [] = Inr byWeek"
    using groupByWeek_empty_map[of pool] by blast
  then have "sorted (map ToString (weeks_of pool))"
    by (simp add: weeks_of_def sorted_weeks_def)
  then show ?thesis
    using perWeek_div remainder_mod[OF assms(1)] quota_sum_run[OF assms] weeks_of_props[of pool]
    by (simp add: week_quota_def weekCount_def)
qed

subsection \<open>C5: every week is represented\<close>

text \<open>
  C5. If \<open>count \<ge> numWeeks\<close>, the result contains at least one question of every week
  group. (Every week group holds at least one question: a group exists only for a
  week number that occurs in the pool. The theorem states this too.)
\<close>

theorem week_coverage:
  assumes "unit_draws rnd" and "int (length (weeks_of pool)) \<le> cnt"
  shows "\<exists>result. selectRandomQuestions rnd pool cnt lvl = Inr result
           \<and> (\<forall>w \<in> set (weeks_of pool).
                 week_group pool w \<noteq> []
                 \<and> (\<exists>q \<in> set result. q \<in> set (week_group pool w)))"
proof -
  from run_covers_weeks[OF assms, of lvl] obtain res k where
    r: "sample_run rnd pool cnt lvl = Inr (res, k)"
       "\<And>w. w \<in> set (weeks_of pool) \<Longrightarrow> \<exists>q \<in> set res. weekNum q = w"
    by blast
  from run_result[OF assms(1), of pool cnt lvl] r(1) have "mset res \<subseteq># mset pool" by auto
  then have sub: "set res \<subseteq> set pool" using set_mset_mono by fastforce
  have "week_group pool w \<noteq> [] \<and> (\<exists>q \<in> set res. q \<in> set (week_group pool w))"
    if "w \<in> set (weeks_of pool)" for w
  proof
    show "week_group pool w \<noteq> []" using that by (rule week_group_nonempty)
    from r(2)[OF that] obtain q where "q \<in> set res" "weekNum q = w" by blast
    then show "\<exists>q \<in> set res. q \<in> set (week_group pool w)"
      using sub by (auto simp: week_group_eq)
  qed
  then show ?thesis using selectRandomQuestions_eq[OF r(1)] by blast
qed

theorem week_coverage_witness:
  "unit_draws zero_draws \<and> int (length (weeks_of pool_three)) \<le> 2
   \<and> weeks_of pool_three = [1, 2]
   \<and> (\<exists>result. selectRandomQuestions zero_draws pool_three 2 entry = Inr result
          \<and> (\<exists>q \<in> set result. q \<in> set (week_group pool_three 1))
          \<and> (\<exists>q \<in> set result. q \<in> set (week_group pool_three 2)))"
proof -
  have h1: "unit_draws zero_draws" by (simp add: unit_draws_def zero_draws_def)
  have w: "weeks_of pool_three = [1, 2]" by code_simp
  have h2: "int (length (weeks_of pool_three)) \<le> 2" unfolding w by simp
  from week_coverage[OF h1 h2, of entry] obtain result where
    "selectRandomQuestions zero_draws pool_three 2 entry = Inr result"
    "\<forall>w \<in> set [1, 2]. \<exists>q \<in> set result. q \<in> set (week_group pool_three w)"
    unfolding w by blast
  then show ?thesis using h1 h2 w by auto
qed

subsection \<open>C6: the share of advanced questions grows with the level\<close>

text \<open>
  C6 as stated: for every abundantly supplied pool and every count, the advanced target
  of a week under the experienced profile, \<open>round(weekQuota * 0.5)\<close>, is at least the
  target under the entry profile, \<open>round(weekQuota * 0.1)\<close>, and the fraction of advanced
  questions in the result is at least as large for the level experienced. This fails
  for a negative count. The pool \<open>pool_abundant\<close> with \<open>count = -2\<close> is abundantly
  supplied; its week has quota \<open>-2\<close>, and \<open>round(-2 * 0.5) = -1\<close> is below
  \<open>round(-2 * 0.1) = 0\<close>. \<open>Math.max(0, ...)\<close> guards both targets, so both are 0, and both
  results are empty: there is no fraction to compare.
\<close>

theorem advanced_rounding_negative_quota_counterexample:
  "abundant pool_abundant (- 2)
   \<and> week_quota pool_abundant (- 2) 0 = - 2
   \<and> Math_round (of_int (week_quota pool_abundant (- 2) 0) * advancedRatio experienced) = - 1
   \<and> Math_round (of_int (week_quota pool_abundant (- 2) 0) * advancedRatio entry) = 0
   \<and> \<not> Math_round (of_int (week_quota pool_abundant (- 2) 0) * advancedRatio entry)
         \<le> Math_round (of_int (week_quota pool_abundant (- 2) 0) * advancedRatio experienced)
   \<and> selectRandomQuestions zero_draws pool_abundant (- 2) experienced = Inr []
   \<and> selectRandomQuestions zero_draws pool_abundant (- 2) entry = Inr []"
  by code_simp

text \<open>
  C6, amended: for every non-empty pool with abundant supply (every difficulty bucket
  of every week strictly larger than every target computed for the week) and every
  count \<open>\<ge> 1\<close>, both results are non-empty, have length \<open>count\<close>, and the fraction of
  advanced questions in the result for the level experienced is at least the fraction
  in the result for the level entry, whatever the draws of the two runs (no rounding
  tolerance is needed); the number of advanced questions in a result is the sum of
  the advanced targets \<open>max(0, round(weekQuota * advancedRatio))\<close> of the weeks; for
  every count \<open>\<ge> 0\<close> every quota is \<open>\<ge> 0\<close> and \<open>round(weekQuota * 0.5)\<close> is at least
  \<open>round(weekQuota * 0.1)\<close>; and for every count \<open>\<le> 0\<close> both results are empty. For
  every count, the targets clamped by \<open>max(0, ...)\<close> are ordered by the level.
\<close>

theorem advanced_share_by_level:
  assumes "unit_draws rnd_x" and "unit_draws rnd_e" and "abundant pool cnt"
  shows "\<exists>res_x res_e.
           selectRandomQuestions rnd_x pool cnt experienced = Inr res_x
         \<and> selectRandomQuestions rnd_e pool cnt entry = Inr res_e
         \<and> int (length (bucket advanced res_x))
             = (\<Sum>i<length (weeks_of pool). advancedTarget experienced (week_quota pool cnt i))
         \<and> int (length (bucket advanced res_e))
             = (\<Sum>i<length (weeks_of pool). advancedTarget entry (week_quota pool cnt i))
         \<and> length (bucket advanced res_e) \<le> length (bucket advanced res_x)
         \<and> length res_x = length res_e
         \<and> (pool \<noteq> [] \<and> 0 \<le> cnt \<longrightarrow> int (length res_x) = cnt)
         \<and> (pool \<noteq> [] \<and> 1 \<le> cnt \<longrightarrow>
               res_x \<noteq> [] \<and> res_e \<noteq> []
               \<and> advanced_fraction res_e \<le> advanced_fraction res_x)
         \<and> (cnt \<le> 0 \<longrightarrow> res_x = [] \<and> res_e = [])
         \<and> (0 \<le> cnt \<longrightarrow>
               (\<forall>i < length (weeks_of pool).
                  0 \<le> week_quota pool cnt i
                  \<and> Math_round (of_int (week_quota pool cnt i) * advancedRatio entry)
                      \<le> Math_round (of_int (week_quota pool cnt i) * advancedRatio experienced)))
         \<and> (\<forall>i < length (weeks_of pool).
               advancedTarget entry (week_quota pool cnt i)
                 \<le> advancedTarget experienced (week_quota pool cnt i))"
proof -
  from run_abundant[OF assms(1,3), of experienced] obtain res_x kx where
    x: "sample_run rnd_x pool cnt experienced = Inr (res_x, kx)"
       "int (length (bucket advanced res_x))
          = (\<Sum>i<length (weeks_of pool). advancedTarget experienced (week_quota pool cnt i))"
       "int (length res_x) = (\<Sum>i<length (weeks_of pool). max 0 (week_quota pool cnt i))"
    by blast
  from run_abundant[OF assms(2,3), of entry] obtain res_e ke where
    e: "sample_run rnd_e pool cnt entry = Inr (res_e, ke)"
       "int (length (bucket advanced res_e))
          = (\<Sum>i<length (weeks_of pool). advancedTarget entry (week_quota pool cnt i))"
       "int (length res_e) = (\<Sum>i<length (weeks_of pool). max 0 (week_quota pool cnt i))"
    by blast
  have len: "length res_x = length res_e" using x(3) e(3) by simp
  have "int (length (bucket advanced res_e)) \<le> int (length (bucket advanced res_x))"
    unfolding x(2) e(2) by (intro sum_mono advancedTarget_mono_level)
  then have adv: "length (bucket advanced res_e) \<le> length (bucket advanced res_x)" by simp
  then have "(of_nat (length (bucket advanced res_e)) :: rat)
               \<le> of_nat (length (bucket advanced res_x))"
    by simp
  then have frac: "advanced_fraction res_e \<le> advanced_fraction res_x"
    unfolding advanced_fraction_def len by (intro divide_right_mono) simp_all
  have full: "int (length res_x) = cnt" if "pool \<noteq> [] \<and> 0 \<le> cnt"
    using that x(3) clamped_quota_sum[of cnt pool] by simp
  have nonempty: "res_x \<noteq> [] \<and> res_e \<noteq> [] \<and> advanced_fraction res_e \<le> advanced_fraction res_x"
    if "pool \<noteq> [] \<and> 1 \<le> cnt"
  proof -
    have "int (length res_x) = cnt" using that by (intro full) simp
    then have "0 < length res_x" using that by linarith
    then show ?thesis using len frac by auto
  qed
  have empty: "res_x = [] \<and> res_e = []" if "cnt \<le> 0"
    using x(3) e(3) clamped_quota_sum_nonpos[OF that, of pool] by simp
  have raw: "\<forall>i < length (weeks_of pool).
                  0 \<le> week_quota pool cnt i
                  \<and> Math_round (of_int (week_quota pool cnt i) * advancedRatio entry)
                      \<le> Math_round (of_int (week_quota pool cnt i) * advancedRatio experienced)"
    if "0 \<le> cnt"
  proof (intro allI impI)
    fix i
    have q: "0 \<le> week_quota pool cnt i"
      unfolding week_quota_def by (rule quota_nonneg[OF that])
    then show "0 \<le> week_quota pool cnt i
       \<and> Math_round (of_int (week_quota pool cnt i) * advancedRatio entry)
           \<le> Math_round (of_int (week_quota pool cnt i) * advancedRatio experienced)"
      using advanced_round_mono_level[OF q] by simp
  qed
  show ?thesis
    using selectRandomQuestions_eq[OF x(1)] selectRandomQuestions_eq[OF e(1)] x(2) e(2)
      len adv full nonempty empty raw advancedTarget_mono_level
    by blast
qed

theorem advanced_share_by_level_witness:
  "unit_draws zero_draws \<and> abundant pool_abundant 1 \<and> pool_abundant \<noteq> []
   \<and> (\<exists>res_x res_e.
           selectRandomQuestions zero_draws pool_abundant 1 experienced = Inr res_x
         \<and> selectRandomQuestions zero_draws pool_abundant 1 entry = Inr res_e
         \<and> length res_x = 1 \<and> length res_e = 1
         \<and> res_x \<noteq> [] \<and> res_e \<noteq> []
         \<and> advanced_fraction res_e \<le> advanced_fraction res_x)"
proof -
  have h1: "unit_draws zero_draws" by (simp add: unit_draws_def zero_draws_def)
  have h2: "abundant pool_abundant 1" by code_simp
  have h3: "pool_abundant \<noteq> []" by (simp add: pool_abundant_def)
  from advanced_share_by_level[OF h1 h1 h2] obtain res_x res_e where
    r: "selectRandomQuestions zero_draws pool_abundant 1 experienced = Inr res_x"
       "selectRandomQuestions zero_draws pool_abundant 1 entry = Inr res_e"
       "length res_x = length res_e"
       "pool_abundant \<noteq> [] \<and> (0 :: int) \<le> 1 \<longrightarrow> int (length res_x) = 1"
       "pool_abundant \<noteq> [] \<and> (1 :: int) \<le> 1 \<longrightarrow>
          res_x \<noteq> [] \<and> res_e \<noteq> [] \<and> advanced_fraction res_e \<le> advanced_fraction res_x"
    by blast
  have "length res_x = 1" using r(4) h3 by simp
  then show ?thesis using h1 h2 h3 r by auto
qed

subsection \<open>C7: totality, the empty pool and counts that are not positive\<close>

text \<open>
  C7. \<open>selectRandomQuestions\<close> is total: for every pool, count, level and every
  sequence of draws it returns a sequence and does not throw. For the empty pool the
  result is empty, and for every pool and every count \<open>\<le> 0\<close> (negative counts too) the
  result is empty.
\<close>

theorem selectRandomQuestions_total:
  "(\<exists>result. selectRandomQuestions rnd pool cnt lvl = Inr result)
   \<and> selectRandomQuestions rnd [] cnt lvl = Inr []
   \<and> (cnt \<le> 0 \<longrightarrow> selectRandomQuestions rnd pool cnt lvl = Inr [])"
proof (intro conjI impI)
  show "\<exists>result. selectRandomQuestions rnd pool cnt lvl = Inr result"
    using sample_run_total[of rnd pool cnt lvl] selectRandomQuestions_eq by blast
  show "selectRandomQuestions rnd [] cnt lvl = Inr []"
    by (simp add: selectRandomQuestions_def sample_run_Nil)
  show "selectRandomQuestions rnd pool cnt lvl = Inr []" if "cnt \<le> 0"
    using sample_run_nonpos[OF that, of rnd pool lvl] selectRandomQuestions_eq by blast
qed

theorem selectRandomQuestions_total_witness:
  "selectRandomQuestions zero_draws pool_three (- 1) entry = Inr []
   \<and> selectRandomQuestions zero_draws pool_three 0 experienced = Inr []"
  using selectRandomQuestions_total[of zero_draws pool_three "- 1" entry]
    selectRandomQuestions_total[of zero_draws pool_three 0 experienced]
  by simp

subsection \<open>C8: the inputs are not written\<close>

text \<open>
  C8. \<open>shuffleArray\<close> returns a new array that is a permutation of its input (the same
  multiset of elements, the same length) and leaves its input as it was; and
  \<open>selectRandomQuestions\<close> writes no array that existed before the call: after the call
  every array of the store before the call, the pool among them, holds the same
  question records with all their fields, the result is a new array, it is the result
  of the embedding over lists, and every element of it is an element of the pool.
\<close>

theorem inputs_not_written:
  assumes "unit_draws rnd" and "array < length h0" and "questions < length h"
  shows "(\<exists>shuffled h0' k'. shuffleArray_st rnd array h0 k = (shuffled, h0', k')
            \<and> length h0 \<le> shuffled \<and> shuffled < length h0'
            \<and> take (length h0) h0' = h0
            \<and> h0' ! array = h0 ! array
            \<and> mset (h0' ! shuffled) = mset (h0 ! array)
            \<and> length (h0' ! shuffled) = length (h0 ! array)
            \<and> h0' ! shuffled = fst (shuffleArray rnd (h0 ! array) k))
       \<and> (\<exists>result h' n. selectRandomQuestions_st rnd questions cnt lvl h = Inr (result, h', n)
            \<and> length h \<le> result \<and> result < length h'
            \<and> take (length h) h' = h
            \<and> h' ! questions = h ! questions
            \<and> selectRandomQuestions rnd (h ! questions) cnt lvl = Inr (h' ! result)
            \<and> mset (h' ! result) \<subseteq># mset (h ! questions)
            \<and> set (h' ! result) \<subseteq> set (h ! questions))"
proof
  let ?s = "fst (shuffleArray rnd (h0 ! array) k)"
  have "shuffleArray_st rnd array h0 k
          = (length h0, h0 @ [?s], snd (shuffleArray rnd (h0 ! array) k))"
    by (rule shuffleArray_st_eq)
  moreover have "(h0 @ [?s]) ! array = h0 ! array" using assms(2) by (simp add: nth_append)
  moreover have "(h0 @ [?s]) ! length h0 = ?s" by (rule nth_append_length)
  moreover have "mset ?s = mset (h0 ! array)" by (rule shuffleArray_mset[OF assms(1)])
  moreover have "length ?s = length (h0 ! array)" by (rule shuffleArray_length)
  moreover have "take (length h0) (h0 @ [?s]) = h0" by simp
  moreover have "length h0 < length (h0 @ [?s])" by simp
  ultimately show "\<exists>shuffled h0' k'. shuffleArray_st rnd array h0 k = (shuffled, h0', k')
            \<and> length h0 \<le> shuffled \<and> shuffled < length h0'
            \<and> take (length h0) h0' = h0
            \<and> h0' ! array = h0 ! array
            \<and> mset (h0' ! shuffled) = mset (h0 ! array)
            \<and> length (h0' ! shuffled) = length (h0 ! array)
            \<and> h0' ! shuffled = fst (shuffleArray rnd (h0 ! array) k)"
    by (metis order_refl)
next
  from run_result[OF assms(1), of "h ! questions" cnt lvl] obtain res n where
    r: "sample_run rnd (h ! questions) cnt lvl = Inr (res, n)"
       "mset res \<subseteq># mset (h ! questions)"
    by blast
  from selectRandomQuestions_st_spec[OF assms(3) r(1)] obtain result h' where
    s: "selectRandomQuestions_st rnd questions cnt lvl h = Inr (result, h', n)"
       "length h \<le> result" "result < length h'" "h' ! result = res"
       "take (length h) h' = h"
    by blast
  have "h' ! questions = h ! questions" using s(5) assms(3) by (metis nth_take)
  moreover have "selectRandomQuestions rnd (h ! questions) cnt lvl = Inr (h' ! result)"
    using selectRandomQuestions_eq[OF r(1)] s(4) by simp
  moreover have "set (h' ! result) \<subseteq> set (h ! questions)"
    using set_mset_mono[OF r(2)] s(4) by simp
  ultimately show "\<exists>result h' n.
       selectRandomQuestions_st rnd questions cnt lvl h = Inr (result, h', n)
       \<and> length h \<le> result \<and> result < length h'
       \<and> take (length h) h' = h
       \<and> h' ! questions = h ! questions
       \<and> selectRandomQuestions rnd (h ! questions) cnt lvl = Inr (h' ! result)
       \<and> mset (h' ! result) \<subseteq># mset (h ! questions)
       \<and> set (h' ! result) \<subseteq> set (h ! questions)"
    using s r(2) by blast
qed

theorem inputs_not_written_witness:
  "unit_draws zero_draws \<and> (0 :: nat) < length store_two
   \<and> (\<exists>shuffled h0' k'. shuffleArray_st zero_draws 0 store_two 0 = (shuffled, h0', k')
          \<and> 2 \<le> shuffled \<and> take 2 h0' = store_two
          \<and> mset (h0' ! shuffled) = mset pool_three)
   \<and> (\<exists>result h' n. selectRandomQuestions_st zero_draws 0 2 entry store_two = Inr (result, h', n)
          \<and> 2 \<le> result \<and> take 2 h' = store_two
          \<and> set (h' ! result) \<subseteq> set pool_three)"
proof -
  have h1: "unit_draws zero_draws" by (simp add: unit_draws_def zero_draws_def)
  have h2: "0 < length store_two" by (simp add: store_two_def)
  have l: "length store_two = 2" "store_two ! 0 = pool_three" by (simp_all add: store_two_def)
  from inputs_not_written[OF h1 h2 h2, of 0 2 entry]
  have "(\<exists>shuffled h0' k'. shuffleArray_st zero_draws 0 store_two 0 = (shuffled, h0', k')
          \<and> 2 \<le> shuffled \<and> take 2 h0' = store_two
          \<and> mset (h0' ! shuffled) = mset pool_three)
      \<and> (\<exists>result h' n. selectRandomQuestions_st zero_draws 0 2 entry store_two = Inr (result, h', n)
          \<and> 2 \<le> result \<and> take 2 h' = store_two
          \<and> set (h' ! result) \<subseteq> set pool_three)"
    unfolding l by blast
  then show ?thesis using h1 h2 by simp
qed

subsection \<open>C9: falsy week numbers\<close>

text \<open>
  C9. A question whose \<open>weekNumber\<close> is falsy (absent, or the integer \<open>0\<close>) is put in
  the group with key 99, together with the questions whose \<open>weekNumber\<close> is 99; no
  group has the key 0; and a pool whose questions all have \<open>weekNumber\<close> 0 is one
  group with key 99.
\<close>

theorem falsy_week_is_99:
  "(weekNum q = 99 \<longleftrightarrow>
      weekNumber q = None \<or> weekNumber q = Some 0 \<or> weekNumber q = Some 99)
   \<and> week_group pool 99 =
       filter (\<lambda>q. weekNumber q = None \<or> weekNumber q = Some 0 \<or> weekNumber q = Some 99) pool
   \<and> 0 \<notin> set (weeks_of pool)
   \<and> (pool \<noteq> [] \<and> (\<forall>q \<in> set pool. weekNumber q = Some 0) \<longrightarrow>
        groupByWeek pool [] = Inr [(99, pool)] \<and> weeks_of pool = [99])"
proof (intro conjI impI)
  show "weekNum q = 99 \<longleftrightarrow>
          weekNumber q = None \<or> weekNumber q = Some 0 \<or> weekNumber q = Some 99"
    by (rule weekNum_99_iff)
  show "week_group pool 99 =
          filter (\<lambda>q. weekNumber q = None \<or> weekNumber q = Some 0 \<or> weekNumber q = Some 99) pool"
    unfolding week_group_eq weekNum_99_iff ..
  show "0 \<notin> set (weeks_of pool)"
    unfolding weeks_of_props(2) using weekNum_nonzero by (auto simp: image_iff)
next
  assume a: "pool \<noteq> [] \<and> (\<forall>q \<in> set pool. weekNumber q = Some 0)"
  then have "\<forall>q \<in> set pool. weekNum q = 99" by (simp add: weekNum_99_iff)
  with a have g: "groupByWeek pool [] = Inr [(99, pool)]"
    by (intro groupByWeek_single_week) simp_all
  then show "groupByWeek pool [] = Inr [(99, pool)]" .
  show "weeks_of pool = [99]" by (simp add: weeks_of_def g sorted_weeks_def)
qed

theorem falsy_week_is_99_witness:
  "groupByWeek pool_week_zero [] = Inr [(99, pool_week_zero)]
   \<and> weeks_of pool_week_zero = [99]
   \<and> week_group pool_falsy_weeks 99 = pool_falsy_weeks"
proof -
  have "pool_week_zero \<noteq> [] \<and> (\<forall>q \<in> set pool_week_zero. weekNumber q = Some 0)"
    by (simp add: pool_week_zero_def mk_question_def)
  moreover have
    "filter (\<lambda>q. weekNumber q = None \<or> weekNumber q = Some 0 \<or> weekNumber q = Some 99)
       pool_falsy_weeks = pool_falsy_weeks"
    by (simp add: pool_falsy_weeks_def mk_question_def)
  ultimately show ?thesis
    using falsy_week_is_99[of undefined pool_week_zero]
      falsy_week_is_99[of undefined pool_falsy_weeks]
    by simp
qed

subsection \<open>C10: the draws are the only source of nondeterminism\<close>

text \<open>
  C10. The result is a function of the pool, the count, the level and the sequence of
  values \<open>Math.random()\<close> returns; more precisely, of the draws the run consumes: a
  run returns a result after \<open>n\<close> draws, and every run on the same arguments whose
  first \<open>n\<close> draws are the same returns the same sequence, element for element,
  after the same number of draws.
\<close>

theorem selectRandomQuestions_deterministic:
  "\<exists>result n. sample_run rnd pool cnt lvl = Inr (result, n)
      \<and> selectRandomQuestions rnd pool cnt lvl = Inr result
      \<and> (\<forall>rnd'. (\<forall>k<n. rnd' k = rnd k) \<longrightarrow>
            sample_run rnd' pool cnt lvl = Inr (result, n)
            \<and> selectRandomQuestions rnd' pool cnt lvl = Inr result)"
proof -
  from sample_run_total[of rnd pool cnt lvl] obtain result n where
    r: "sample_run rnd pool cnt lvl = Inr (result, n)" by blast
  have "sample_run rnd' pool cnt lvl = Inr (result, n)
        \<and> selectRandomQuestions rnd' pool cnt lvl = Inr result"
    if "\<forall>k<n. rnd' k = rnd k" for rnd'
  proof -
    have "sample_run rnd' pool cnt lvl = Inr (result, n)"
      by (rule sample_run_cong[OF r]) (use that in simp)
    then show ?thesis using selectRandomQuestions_eq by blast
  qed
  then show ?thesis using r selectRandomQuestions_eq[OF r] by blast
qed

theorem selectRandomQuestions_deterministic_witness:
  "\<exists>result. sample_run zero_draws pool_three 2 entry = Inr (result, 1)
      \<and> sample_run zero_then_half pool_three 2 entry = Inr (result, 1)
      \<and> selectRandomQuestions zero_then_half pool_three 2 entry = Inr result"
proof -
  from selectRandomQuestions_deterministic[of zero_draws pool_three 2 entry]
  obtain result n where
    r: "sample_run zero_draws pool_three 2 entry = Inr (result, n)"
       "\<And>rnd'. (\<forall>k<n. rnd' k = zero_draws k) \<Longrightarrow>
          sample_run rnd' pool_three 2 entry = Inr (result, n)
          \<and> selectRandomQuestions rnd' pool_three 2 entry = Inr result"
    by blast
  have "snd (projr (sample_run zero_draws pool_three 2 entry)) = 1" by code_simp
  then have n: "n = 1" using r(1) by simp
  have "\<forall>k<n. zero_then_half k = zero_draws k"
    unfolding n by (simp add: zero_then_half_def zero_draws_def)
  from r(2)[OF this] r(1) show ?thesis unfolding n by blast
qed

end
